theory Spec2Isabelle
  imports Main "HOL-Library.Char_ord" "HOL-Library.Sublist" "HOL-Library.AList"
begin

section \<open>Text and character classes\<close>

text \<open>
  The three scripts read a file with \<^verbatim>\<open>open(path).read()\<close> and work on the resulting
  Python \<^verbatim>\<open>str\<close>.  A text is modelled as a \<^typ>\<open>string\<close>, each \<^typ>\<open>char\<close> standing for the
  code point of the same number, so the model covers texts whose code points are below 256.
  The character classes are those of Python's \<^verbatim>\<open>re\<close> module for \<^verbatim>\<open>str\<close> patterns on
  that range.
\<close>

definition between :: "char \<Rightarrow> char \<Rightarrow> char \<Rightarrow> bool" where
  "between lo hi c = (lo \<le> c \<and> c \<le> hi)"

definition is_space :: "char \<Rightarrow> bool" where
  \<comment> \<open>\<^verbatim>\<open>\s\<close>: the code points for which \<^verbatim>\<open>str.isspace\<close> holds.\<close>
  "is_space c = (between (CHR 0x09) (CHR 0x0D) c \<or> between (CHR 0x1C) (CHR 0x20) c
     \<or> c = CHR 0x85 \<or> c = CHR 0xA0)"

definition is_word :: "char \<Rightarrow> bool" where
  \<comment> \<open>\<^verbatim>\<open>\w\<close>: the underscore and the code points for which \<^verbatim>\<open>str.isalnum\<close> holds.\<close>
  "is_word c = (between CHR ''a'' CHR ''z'' c \<or> between CHR ''A'' CHR ''Z'' c
     \<or> between CHR ''0'' CHR ''9'' c \<or> c = CHR ''_''
     \<or> c = CHR 0xAA \<or> c = CHR 0xB2 \<or> c = CHR 0xB3 \<or> c = CHR 0xB5 \<or> c = CHR 0xB9
     \<or> c = CHR 0xBA \<or> between (CHR 0xBC) (CHR 0xBE) c \<or> between (CHR 0xC0) (CHR 0xD6) c
     \<or> between (CHR 0xD8) (CHR 0xF6) c \<or> between (CHR 0xF8) (CHR 0xFF) c)"

datatype cls =
    Space           \<comment> \<open>\<^verbatim>\<open>\s\<close>\<close>
  | Word            \<comment> \<open>\<^verbatim>\<open>\w\<close>\<close>
  | Dot             \<comment> \<open>\<^verbatim>\<open>.\<close>: every character but the newline\<close>
  | NoneOf string   \<comment> \<open>\<^verbatim>\<open>[^...]\<close>\<close>

fun in_cls :: "cls \<Rightarrow> char \<Rightarrow> bool" where
  "in_cls Space c = is_space c"
| "in_cls Word c = is_word c"
| "in_cls Dot c = (c \<noteq> CHR 0x0A)"
| "in_cls (NoneOf cs) c = (\<not> List.member cs c)"

section \<open>Regular expressions\<close>

text \<open>
  The constructs the patterns of the three scripts are written with.  Repetition is only
  applied to character classes there.
\<close>

datatype re =
    Lit string      \<comment> \<open>literal text\<close>
  | Many cls        \<comment> \<open>\<^verbatim>\<open>c*\<close>, greedy\<close>
  | Many1 cls       \<comment> \<open>\<^verbatim>\<open>c+\<close>, greedy\<close>
  | Opt re          \<comment> \<open>\<^verbatim>\<open>r?\<close>, greedy\<close>
  | Seq re re
  | Alt re re       \<comment> \<open>\<^verbatim>\<open>r|s\<close>\<close>
  | Grp re          \<comment> \<open>a capturing group\<close>
  | WordB           \<comment> \<open>\<^verbatim>\<open>\b\<close>\<close>
  | Eol             \<comment> \<open>\<^verbatim>\<open>$\<close> under \<^verbatim>\<open>re.MULTILINE\<close>: the end of the text or of a line\<close>
  | Ahead re        \<comment> \<open>\<^verbatim>\<open>(?=r)\<close>\<close>

text \<open>
  The matcher is a backtracking one, as Python's: \<open>run r st\<close> lists the states in which
  \<open>r\<close> can end when it starts in \<open>st\<close>, in the order in which backtracking tries them, so that
  the head of the list is the match the engine reports.  A state holds the character before
  the position (for \<^verbatim>\<open>\b\<close>), the text from the position on, and the texts of the groups closed
  so far.  The patterns of the scripts that refer to a group have their groups side by side,
  where the order of closing is the numbering.
\<close>

record mstate =
  prev :: "char option"
  rest :: string
  caps :: "string list"

definition word_opt :: "char option \<Rightarrow> bool" where
  "word_opt c = (case c of None \<Rightarrow> False | Some x \<Rightarrow> is_word x)"

definition next_char :: "string \<Rightarrow> char option" where
  "next_char s = (case s of [] \<Rightarrow> None | c # _ \<Rightarrow> Some c)"

definition eat :: "nat \<Rightarrow> mstate \<Rightarrow> mstate" where
  "eat n st = (if n = 0 then st
     else st\<lparr>prev := Some (rest st ! (n - 1)), rest := drop n (rest st)\<rparr>)"

fun starts_with :: "string \<Rightarrow> string \<Rightarrow> bool" where
  "starts_with [] s = True"
| "starts_with (p # ps) [] = False"
| "starts_with (p # ps) (c # cs) = (p = c \<and> starts_with ps cs)"

fun run :: "re \<Rightarrow> mstate \<Rightarrow> mstate list" where
  "run (Lit l) st = (if starts_with l (rest st) then [eat (length l) st] else [])"
| "run (Many k) st = map (\<lambda>n. eat n st) (rev [0 ..< Suc (length (takeWhile (in_cls k) (rest st)))])"
| "run (Many1 k) st = map (\<lambda>n. eat n st) (rev [1 ..< Suc (length (takeWhile (in_cls k) (rest st)))])"
| "run (Opt r) st = run r st @ [st]"
| "run (Seq r1 r2) st = concat (map (run r2) (run r1 st))"
| "run (Alt r1 r2) st = run r1 st @ run r2 st"
| "run (Grp r) st = map (\<lambda>st'. st'\<lparr>caps := caps st' @ [take (length (rest st) - length (rest st')) (rest st)]\<rparr>) (run r st)"
| "run WordB st = (if word_opt (prev st) \<noteq> word_opt (next_char (rest st)) then [st] else [])"
| "run Eol st = (if rest st = [] \<or> starts_with [CHR 0x0A] (rest st) then [st] else [])"
| "run (Ahead r) st = (if run r st = [] then [] else [st])"

definition search :: "re \<Rightarrow> char option \<Rightarrow> string \<Rightarrow> mstate option" where
  \<comment> \<open>The first way, in backtracking order, in which the pattern matches at this position.\<close>
  "search r p s = (case run r \<lparr>prev = p, rest = s, caps = []\<rparr> of [] \<Rightarrow> None | st # _ \<Rightarrow> Some st)"

section \<open>Substitution\<close>

text \<open>
  A replacement template is a list of literal texts and group references (\<^verbatim>\<open>\1\<close>).
  \<open>sub_loop\<close> is the loop of \<^verbatim>\<open>re.sub\<close>: at each position it looks for a match; a match
  is replaced and the search goes on behind it; without one the character is copied.  The
  limit is the number of replacements still allowed, \<open>None\<close> for no limit.  No pattern of the
  three scripts can match the empty text (lemma \<open>match_consumes\<close> below); for such a match
  the loop copies one character, so that it always moves on.
\<close>

datatype ritem = Txt string | Ref nat

fun expand :: "ritem list \<Rightarrow> string list \<Rightarrow> string" where
  "expand [] gs = []"
| "expand (Txt t # is) gs = t @ expand is gs"
| "expand (Ref n # is) gs = (if 0 < n \<and> n \<le> length gs then gs ! (n - 1) else []) @ expand is gs"

type_synonym matcher = "char option \<Rightarrow> string \<Rightarrow> (string \<times> char option \<times> string) option"

definition re_matcher :: "re \<Rightarrow> ritem list \<Rightarrow> matcher" where
  "re_matcher r repl p s =
     (case search r p s of None \<Rightarrow> None
      | Some st \<Rightarrow> Some (expand repl (caps st), prev st, rest st))"

definition dec :: "nat option \<Rightarrow> nat option" where
  "dec lim = (case lim of None \<Rightarrow> None | Some n \<Rightarrow> Some (n - 1))"

function sub_loop :: "matcher \<Rightarrow> nat option \<Rightarrow> char option \<Rightarrow> string \<Rightarrow> string" where
  "sub_loop m lim p s =
     (if lim = Some 0 then s
      else case m p s of
        None \<Rightarrow> (case s of [] \<Rightarrow> [] | c # cs \<Rightarrow> c # sub_loop m lim (Some c) cs)
      | Some (out, p', s') \<Rightarrow>
          if length s' < length s then out @ sub_loop m (dec lim) p' s'
          else (case s of [] \<Rightarrow> out | c # cs \<Rightarrow> out @ c # sub_loop m (dec lim) (Some c) cs))"
  by pat_completeness auto
termination
  by (relation "measure (\<lambda>(m, lim, p, s). length s)") auto

definition re_sub :: "re \<Rightarrow> ritem list \<Rightarrow> string \<Rightarrow> string" where
  \<comment> \<open>\<^verbatim>\<open>re.sub(pattern, repl, string)\<close>\<close>
  "re_sub r repl s = sub_loop (re_matcher r repl) None None s"

definition re_sub_count :: "re \<Rightarrow> ritem list \<Rightarrow> string \<Rightarrow> nat \<Rightarrow> string" where
  \<comment> \<open>\<^verbatim>\<open>re.sub(pattern, repl, string, count)\<close>; a count of 0 replaces every match.\<close>
  "re_sub_count r repl s n = sub_loop (re_matcher r repl) (if n = 0 then None else Some n) None s"

fun cat :: "re list \<Rightarrow> re" where
  \<comment> \<open>The patterns of a list, one after the other.\<close>
  "cat [] = Lit []"
| "cat [r] = r"
| "cat (r # rs) = Seq r (cat rs)"

subsection \<open>What a pattern can consume\<close>

text \<open>
  Three readings of a pattern that bound the text a match consumes from above: the
  characters it may hold, whether it may be empty, and the characters it may end with.
  \<open>first_lit\<close> is a literal every match starts with.  They are used in the proofs that a
  substitution leaves an occurrence of a text in place.
\<close>

fun may :: "re \<Rightarrow> char \<Rightarrow> bool" where
  "may (Lit l) c = List.member l c"
| "may (Many k) c = in_cls k c"
| "may (Many1 k) c = in_cls k c"
| "may (Opt r) c = may r c"
| "may (Seq r1 r2) c = (may r1 c \<or> may r2 c)"
| "may (Alt r1 r2) c = (may r1 c \<or> may r2 c)"
| "may (Grp r) c = may r c"
| "may WordB c = False"
| "may Eol c = False"
| "may (Ahead r) c = False"

fun nullable :: "re \<Rightarrow> bool" where
  "nullable (Lit l) = (l = [])"
| "nullable (Many k) = True"
| "nullable (Many1 k) = False"
| "nullable (Opt r) = True"
| "nullable (Seq r1 r2) = (nullable r1 \<and> nullable r2)"
| "nullable (Alt r1 r2) = (nullable r1 \<or> nullable r2)"
| "nullable (Grp r) = nullable r"
| "nullable WordB = True"
| "nullable Eol = True"
| "nullable (Ahead r) = True"

fun last_may :: "re \<Rightarrow> char \<Rightarrow> bool" where
  "last_may (Lit l) c = (l \<noteq> [] \<and> c = last l)"
| "last_may (Many k) c = in_cls k c"
| "last_may (Many1 k) c = in_cls k c"
| "last_may (Opt r) c = last_may r c"
| "last_may (Seq r1 r2) c = (last_may r2 c \<or> (nullable r2 \<and> last_may r1 c))"
| "last_may (Alt r1 r2) c = (last_may r1 c \<or> last_may r2 c)"
| "last_may (Grp r) c = last_may r c"
| "last_may WordB c = False"
| "last_may Eol c = False"
| "last_may (Ahead r) c = False"

fun first_lit :: "re \<Rightarrow> string" where
  "first_lit (Lit l) = l"
| "first_lit (Seq WordB r) = first_lit r"
| "first_lit (Seq (Lit l) r) = l"
| "first_lit r = []"

definition no_start :: "re \<Rightarrow> string \<Rightarrow> bool" where
  \<comment> \<open>A check that can be computed: no match of \<open>r\<close> can begin inside \<open>k\<close>, because the
      literal it starts with disagrees with every end of \<open>k\<close>.\<close>
  "no_start r k =
     list_all (\<lambda>k2. k2 = [] \<or> (\<not> prefix (first_lit r) k2 \<and> \<not> prefix k2 (first_lit r)))
       (suffixes k)"

definition keeps :: "re \<Rightarrow> string \<Rightarrow> nat \<Rightarrow> bool" where
  \<comment> \<open>Moreover no match can run into \<open>k\<close> from the left, because it cannot hold the
      character of \<open>k\<close> at \<open>i\<close> nor end with an earlier one.\<close>
  "keeps r k i =
     (i < length k \<and> \<not> may r (k ! i) \<and> list_all (\<lambda>c. \<not> last_may r c) (take i k)
      \<and> no_start r k)"

section \<open>String operations\<close>

fun contains :: "string \<Rightarrow> string \<Rightarrow> bool" where
  \<comment> \<open>\<^verbatim>\<open>needle in text\<close>\<close>
  "contains n [] = (n = [])"
| "contains n (c # cs) = (starts_with n (c # cs) \<or> contains n cs)"

fun str_replace :: "string \<Rightarrow> string \<Rightarrow> string \<Rightarrow> nat \<Rightarrow> string" where
  \<comment> \<open>\<^verbatim>\<open>text.replace(old, new, count)\<close> for a non-empty \<^verbatim>\<open>old\<close> and a count of at least 0.\<close>
  "str_replace old new [] n = []"
| "str_replace old new (c # cs) n =
     (if n = 0 then c # cs
      else if old \<noteq> [] \<and> starts_with old (c # cs)
        then new @ str_replace old new (drop (length old) (c # cs)) (n - 1)
      else c # str_replace old new cs n)"

section \<open>Pass 1: astpool_to_lpbox.py\<close>

definition newline :: string where
  "newline = [CHR 0x0A]"

definition replace_types :: "string \<Rightarrow> string" where
  \<comment> \<open>1. Replace type signatures\<close>
  "replace_types content =
     (let content = re_sub (cat [WordB, Lit ''ExprId'', WordB]) [Txt ''Expr''] content;
          content = re_sub (cat [WordB, Lit ''StmtId'', WordB]) [Txt ''Stmt''] content
      in content)"

definition replace_box :: "string \<Rightarrow> string" where
  \<comment> \<open>2. Replace Box<Expr> and Box<Stmt> with LpBox versions; 3. Replace Box::new with LpBox::try_new\<close>
  "replace_box content =
     (let content = re_sub (Lit ''Box<Expr>'') [Txt ''LpBox<Expr>''] content;
          content = re_sub (Lit ''Box<Stmt>'') [Txt ''LpBox<Stmt>''] content;
          content = re_sub (Lit ''Box::new('') [Txt ''LpBox::try_new(''] content
      in content)"

definition remove_pool_params :: "string \<Rightarrow> string" where
  \<comment> \<open>4. Remove AstPool parameters from function signatures; 5. Remove AstPool return types\<close>
  "remove_pool_params content =
     (let content = re_sub (cat [Lit '','', Many Space, Opt (Grp (cat [Lit ''mut'', Many1 Space])),
                                 Lit ''pool:'', Many Space, Lit ''AstPool'']) [] content;
          content = re_sub (cat [Lit ''(pool:'', Many Space, Lit ''AstPool,'']) [Txt ''(''] content;
          content = re_sub (cat [Lit ''(pool:'', Many Space, Lit ''AstPool)'']) [Txt ''()''] content;
          content = re_sub (cat [Lit ''->'', Many Space, Lit ''(Expr,'', Many Space, Lit ''AstPool)''])
                      [Txt ''-> Expr''] content;
          content = re_sub (cat [Lit ''->'', Many Space, Lit ''(Stmt,'', Many Space, Lit ''AstPool)''])
                      [Txt ''-> Stmt''] content
      in content)"

definition remove_pool_calls :: "string \<Rightarrow> string" where
  \<comment> \<open>6. Remove pool.expr(id) dereferences; 7. Remove pool.alloc_expr wrapping\<close>
  "remove_pool_calls content =
     (let content = re_sub (cat [Lit ''pool.expr('', Grp (Many1 Word), Lit '')'']) [Ref 1] content;
          content = re_sub (cat [Lit ''pool.expr_mut('', Grp (Many1 Word), Lit '')'']) [Ref 1] content;
          content = re_sub (cat [Lit ''pool.stmt('', Grp (Many1 Word), Lit '')'']) [Ref 1] content;
          content = re_sub (cat [Lit ''pool.alloc_expr('', Grp (Many1 (NoneOf '','')), Lit '','',
                                 Many Space, Grp (Many1 (NoneOf '')'')), Lit '')?''])
                      [Txt ''Expr::new('', Ref 1, Txt '', '', Ref 2, Txt '')''] content
      in content)"

definition add_lpbox_import :: "string \<Rightarrow> string \<Rightarrow> string" where
  \<comment> \<open>8. Add LpBox import if file was modified and doesn't have it\<close>
  "add_lpbox_import original content =
     (if content \<noteq> original \<and> \<not> contains ''use lp_pool::LpBox'' content \<and> contains ''LpBox'' content
      then
        if contains ''extern crate alloc;'' content
        then str_replace ''extern crate alloc;''
               (''extern crate alloc;'' @ newline @ ''use lp_pool::LpBox;'') content 1
        else if contains (newline @ ''use '') content
        then re_sub_count (cat [Grp (Lit newline), Grp (Lit ''use '')])
               [Ref 1, Txt (''use lp_pool::LpBox;'' @ newline), Ref 2] content 1
        else content
      else content)"

definition remove_box_import :: "string \<Rightarrow> string" where
  \<comment> \<open>9. Remove Box import if no longer needed\<close>
  "remove_box_import content =
     (if \<not> contains ''Box<'' content \<and> \<not> contains ''Box::'' content
      then re_sub (Lit (''use alloc::boxed::Box;'' @ newline)) [] content
      else content)"

definition remove_pool_use :: "string \<Rightarrow> string" where
  \<comment> \<open>10. Remove AstPool/ExprId/StmtId imports: the whole import statement, then AstPool
      from import lists\<close>
  "remove_pool_use content =
     (let content = re_sub (cat [Lit ''use crate::'', Opt (Lit ''lpscript::''), Lit ''compiler::ast::{'',
                                 Many (NoneOf ''}''), Lit ''AstPool'', Many (NoneOf ''}''), Lit ''}'',
                                 Opt (Lit '';''), Lit newline]) [] content;
          content = re_sub (cat [Lit '','', Many Space, Lit ''AstPool'']) [] content
      in content)"

definition remove_id_imports :: "string \<Rightarrow> string" where
  \<comment> \<open>10. (continued) the last two substitutions\<close>
  "remove_id_imports content =
     (let content = re_sub (cat [Lit '','', Many Space, Lit ''ExprId'']) [] content;
          content = re_sub (cat [Lit '','', Many Space, Lit ''StmtId'']) [] content
      in content)"

definition rewrite_rules :: "string \<Rightarrow> string" where
  \<comment> \<open>Steps 1 to 7, in the order of the source.\<close>
  "rewrite_rules content = remove_pool_calls (remove_pool_params (replace_box (replace_types content)))"

definition process_content :: "string \<Rightarrow> string" where
  \<comment> \<open>What \<^verbatim>\<open>process_file\<close> computes from the text it read, before the comparison with
      the original.\<close>
  "process_content original =
     remove_id_imports (remove_pool_use (remove_box_import
       (add_lpbox_import original (rewrite_rules original))))"

definition process_content_without_id_rules :: "string \<Rightarrow> string" where
  \<comment> \<open>\<^verbatim>\<open>process_content\<close> with the last two substitutions of step 10 left out.\<close>
  "process_content_without_id_rules original =
     remove_pool_use (remove_box_import (add_lpbox_import original (rewrite_rules original)))"

fun whole_at :: "string \<Rightarrow> char option \<Rightarrow> string \<Rightarrow> bool" where
  \<comment> \<open>Wherever the name occurs in the text, the character before it and the character
      after it are not word characters; \<open>p\<close> is the character before the text.\<close>
  "whole_at name p [] = True"
| "whole_at name p (c # cs) =
     ((if starts_with name (c # cs)
       then \<not> word_opt p \<and> \<not> word_opt (next_char (drop (length name) (c # cs)))
       else True)
      \<and> whole_at name (Some c) cs)"

definition whole_only :: "string \<Rightarrow> string \<Rightarrow> bool" where
  \<comment> \<open>The name occurs in the text only as a whole identifier.\<close>
  "whole_only name s = whole_at name None s"

fun occurrences :: "string \<Rightarrow> string \<Rightarrow> nat" where
  \<comment> \<open>The number of positions of the text at which the (non-empty) needle starts.\<close>
  "occurrences n [] = 0"
| "occurrences n (c # cs) = (if starts_with n (c # cs) then 1 else 0) + occurrences n cs"

definition splits_at_first :: "string \<Rightarrow> string \<Rightarrow> string \<Rightarrow> string \<Rightarrow> bool" where
  \<comment> \<open>The text is \<open>a\<close>, then the first occurrence of \<open>k\<close>, then \<open>b\<close>.\<close>
  "splits_at_first k s a b = (s = a @ k @ b \<and> \<not> contains k (a @ butlast k))"

section \<open>Pass 2: fix_gen_signatures.py\<close>

definition apply_rules :: "(re \<times> ritem list) list \<Rightarrow> string \<Rightarrow> string" where
  \<comment> \<open>A run of \<^verbatim>\<open>content = re.sub(pattern, repl, content)\<close> statements, first to last.\<close>
  "apply_rules rules content = foldl (\<lambda>c (r, repl). re_sub r repl c) content rules"

definition typed_param :: "string \<Rightarrow> string \<Rightarrow> re" where
  \<comment> \<open>\<^verbatim>\<open>\bNAME:\s*TYPE\b\<close>\<close>
  "typed_param name ty = cat [WordB, Lit (name @ '':''), Many Space, Lit ty, WordB]"

definition gen_rules :: "(re \<times> ritem list) list" where
  "gen_rules =
    [(cat [Lit '','', Many Space, Lit ''pool:'', Many Space, Lit ''&AstPool''], []),
     (cat [Lit ''(pool:'', Many Space, Lit ''&AstPool,''], [Txt ''(''] ),
     (typed_param ''left'' ''ExprId'', [Txt ''left: &Expr'']),
     (typed_param ''right'' ''ExprId'', [Txt ''right: &Expr'']),
     (typed_param ''operand'' ''ExprId'', [Txt ''operand: &Expr'']),
     (typed_param ''expr_id'' ''ExprId'', [Txt ''expr: &Expr'']),
     (typed_param ''expr'' ''ExprId'', [Txt ''expr: &Expr'']),
     (typed_param ''condition'' ''ExprId'', [Txt ''condition: &Expr'']),
     (typed_param ''true_expr'' ''ExprId'', [Txt ''true_expr: &Expr'']),
     (typed_param ''false_expr'' ''ExprId'', [Txt ''false_expr: &Expr'']),
     (typed_param ''value'' ''ExprId'', [Txt ''value: &Expr'']),
     (typed_param ''stmt_id'' ''StmtId'', [Txt ''stmt: &Stmt'']),
     (typed_param ''stmt'' ''StmtId'', [Txt ''stmt: &Stmt'']),
     (typed_param ''body'' ''StmtId'', [Txt ''body: &Stmt'']),
     (typed_param ''then_stmt'' ''StmtId'', [Txt ''then_stmt: &Stmt'']),
     (typed_param ''else_stmt'' ''Option<StmtId>'', [Txt ''else_stmt: Option<&Stmt>'']),
     (typed_param ''init'' ''&Option<StmtId>'', [Txt ''init: Option<&Stmt>'']),
     (typed_param ''args'' ''&Vec<ExprId>'', [Txt ''args: &Vec<Expr>'']),
     (typed_param ''args'' ''&[ExprId]'', [Txt ''args: &[Expr]'']),
     (cat [WordB, Lit ''gen_'', Grp (Many1 Word), Lit ''_id'', WordB], [Txt ''gen_'', Ref 1]),
     (cat [Lit ''self.gen_expr_id(pool,'', Many Space], [Txt ''self.gen_expr(''] ),
     (cat [Lit ''self.gen_stmt_id(pool,'', Many Space], [Txt ''self.gen_stmt(''] ),
     (cat [Lit ''pool.expr('', Grp (Many1 Word), Lit '')''], [Ref 1]),
     (cat [Lit ''pool.stmt('', Grp (Many1 Word), Lit '')''], [Ref 1])]"

definition fix_gen_file :: "string \<Rightarrow> bool \<times> string" where
  "fix_gen_file original = (let content = apply_rules gen_rules original in (content \<noteq> original, content))"

section \<open>Pass 3: fix_imports.py\<close>

definition import_context :: re where
  \<comment> \<open>\<^verbatim>\<open>(?=.*;\s*$|.*,|.*})\<close> under \<^verbatim>\<open>re.MULTILINE\<close>\<close>
  "import_context =
     Ahead (Alt (cat [Many Dot, Lit '';'', Many Space, Eol])
             (Alt (cat [Many Dot, Lit '','']) (cat [Many Dot, Lit ''}''])))"

definition import_rules :: "(re \<times> ritem list) list" where
  "import_rules =
    [(cat [Lit '','', Many Space, Lit ''AstPool'', Many Space, Lit '',''], [Txt '', '']),
     (cat [Lit '','', Many Space, Lit ''AstPool'', Many Space, Lit ''}''], [Txt ''}'']),
     (cat [Lit ''{'', Many Space, Lit ''AstPool'', Many Space, Lit '',''], [Txt ''{'']),
     (cat [Lit ''use'', Many1 Space, Lit ''crate::compiler::ast::{'', Many Space, Lit ''AstPool'',
           Many Space, Lit ''}'', Opt (Lit '';''), Lit newline], []),
     (cat [WordB, Lit ''ExprId'', WordB, import_context], [Txt ''Expr'']),
     (cat [WordB, Lit ''StmtId'', WordB, import_context], [Txt ''Stmt''])]"

definition fix_imports :: "string \<Rightarrow> bool \<times> string" where
  "fix_imports original = (let content = apply_rules import_rules original in (content \<noteq> original, content))"

section \<open>Files, output and the entry points\<close>

text \<open>
  A path is the list of its components.  The world a script runs in holds the directories,
  the files, a clock and the lines printed so far.  A file has its bytes, its modification
  time and its access time; the clock stamps every read and every write, as a file system
  that records access times does.

  \<^verbatim>\<open>open(path)\<close> and \<^verbatim>\<open>open(path, 'r')\<close> read text: the bytes are decoded with the encoding of
  the environment and every \<^verbatim>\<open>\r\n\<close> and every other \<^verbatim>\<open>\r\<close> becomes \<^verbatim>\<open>\n\<close>.  The encoding is a
  parameter of the model, a \<open>codec\<close>; decoding and encoding may fail.  \<^verbatim>\<open>open(path, 'w')\<close>
  empties the file before the text is encoded and written; on POSIX, which is modelled,
  \<^verbatim>\<open>\n\<close> is written as it is.  Texts being strings, a file that decodes to a code point
  above 255 is outside the model.
\<close>

type_synonym path = "string list"

record file_node =
  data :: string
  mtime :: nat
  atime :: nat

record codec =
  decode :: "string \<Rightarrow> string option"
  encode :: "string \<Rightarrow> string option"

definition latin1 :: codec where
  \<comment> \<open>ISO 8859-1: every byte is the code point of its number.\<close>
  "latin1 = \<lparr>decode = Some, encode = Some\<rparr>"

datatype message =
    Processing path        \<comment> \<open>\<^verbatim>\<open>Processing: {filepath}\<close>\<close>
  | NotFound path          \<comment> \<open>\<^verbatim>\<open>Error: {lpscript_dir} not found\<close>\<close>
  | Running path           \<comment> \<open>\<^verbatim>\<open>Running AstPool -> LpBox codemod on {lpscript_dir}\<close>\<close>
  | Complete nat           \<comment> \<open>\<^verbatim>\<open>Codemod complete. Modified {modified} files.\<close> and the next steps\<close>
  | Fixed path             \<comment> \<open>\<^verbatim>\<open>Fixed: {path}\<close>\<close>
  | FixedCount nat         \<comment> \<open>\<^verbatim>\<open>Fixed {fixed} files\<close>\<close>

record world =
  dirs :: "path list"
  files :: "(path \<times> file_node) list"
  clock :: nat
  stdout :: "message list"

datatype exc = SystemExit nat | OSError path | UnicodeError path

definition print :: "message \<Rightarrow> world \<Rightarrow> world" where
  "print m w = w\<lparr>stdout := stdout w @ [m]\<rparr>"

definition is_dir :: "path \<Rightarrow> world \<Rightarrow> bool" where
  "is_dir p w = List.member (dirs w) p"

definition path_exists :: "path \<Rightarrow> world \<Rightarrow> bool" where
  "path_exists p w = (is_dir p w \<or> map_of (files w) p \<noteq> None)"

fun universal_newlines :: "string \<Rightarrow> string" where
  \<comment> \<open>The newline translation of a file opened for reading in text mode.\<close>
  "universal_newlines [] = []"
| "universal_newlines [c] = [if c = CHR 0x0D then CHR 0x0A else c]"
| "universal_newlines (c # d # cs) =
     (if c = CHR 0x0D \<and> d = CHR 0x0A then CHR 0x0A # universal_newlines cs
      else if c = CHR 0x0D then CHR 0x0A # universal_newlines (d # cs)
      else c # universal_newlines (d # cs))"

definition read_file :: "codec \<Rightarrow> path \<Rightarrow> world \<Rightarrow> (exc + string) \<times> world" where
  \<comment> \<open>\<^verbatim>\<open>with open(path, 'r') as f: content = f.read()\<close>\<close>
  "read_file cd p w =
     (case map_of (files w) p of
        None \<Rightarrow> (Inl (OSError p), w)
      | Some f \<Rightarrow>
          (let w' = w\<lparr>files := AList.update p (f\<lparr>atime := clock w\<rparr>) (files w),
                      clock := Suc (clock w)\<rparr>
           in case decode cd (data f) of
                None \<Rightarrow> (Inl (UnicodeError p), w')
              | Some t \<Rightarrow> (Inr (universal_newlines t), w')))"

definition write_file :: "codec \<Rightarrow> path \<Rightarrow> string \<Rightarrow> world \<Rightarrow> (exc + unit) \<times> world" where
  \<comment> \<open>\<^verbatim>\<open>with open(path, 'w') as f: f.write(content)\<close>, for a path that was read before\<close>
  "write_file cd p t w =
     (let a = (case map_of (files w) p of None \<Rightarrow> clock w | Some f \<Rightarrow> atime f);
          put = (\<lambda>bytes. w\<lparr>files := AList.update p \<lparr>data = bytes, mtime = clock w, atime = a\<rparr> (files w),
                            clock := Suc (clock w)\<rparr>)
      in case encode cd t of
           None \<Rightarrow> (Inl (UnicodeError p), put [])
         | Some bytes \<Rightarrow> (Inr (), put bytes))"

definition bytes_mtime :: "world \<Rightarrow> path \<Rightarrow> (string \<times> nat) option" where
  \<comment> \<open>The bytes and the modification time of the file at a path.\<close>
  "bytes_mtime w p = map_option (\<lambda>f. (data f, mtime f)) (map_of (files w) p)"

definition glob :: "path \<Rightarrow> string \<Rightarrow> world \<Rightarrow> path list" where
  \<comment> \<open>\<^verbatim>\<open>root.rglob('*' + ending)\<close> and \<^verbatim>\<open>root.glob('**/*' + ending)\<close>: every entry below the
      root whose name ends with \<^verbatim>\<open>ending\<close>, in the order the world lists them; pathlib
      yields nothing when the root is not a directory.\<close>
  "glob root ending w =
     (if is_dir root w
      then filter (\<lambda>p. strict_prefix root p \<and> suffix ending (last p)) (map fst (files w) @ dirs w)
      else [])"

definition lpscript_dir :: "path \<Rightarrow> path" where
  \<comment> \<open>\<^verbatim>\<open>script_dir.parent / "crates" / "lp-script" / "src"\<close>\<close>
  "lpscript_dir script_dir = butlast script_dir @ [''crates'', ''lp-script'', ''src'']"

definition exit_status :: "exc option \<Rightarrow> nat" where
  \<comment> \<open>The status of the interpreter: 0 at the end of the script, the argument of
      \<^verbatim>\<open>sys.exit\<close>, 1 after an exception nobody caught.\<close>
  "exit_status r =
     (case r of None \<Rightarrow> 0 | Some (SystemExit n) \<Rightarrow> n | Some (OSError _) \<Rightarrow> 1
      | Some (UnicodeError _) \<Rightarrow> 1)"

fun for_each :: "(path \<Rightarrow> world \<Rightarrow> (exc + bool) \<times> world) \<Rightarrow> path list \<Rightarrow> nat \<Rightarrow> world
    \<Rightarrow> (exc + nat) \<times> world" where
  \<comment> \<open>The loop over the files: the counter goes up for every file reported as changed, and
      an exception ends the loop.\<close>
  "for_each body [] n w = (Inr n, w)"
| "for_each body (p # ps) n w =
     (case body p w of
        (Inl e, w') \<Rightarrow> (Inl e, w')
      | (Inr changed, w') \<Rightarrow> for_each body ps (if changed then n + 1 else n) w')"

definition process_file :: "codec \<Rightarrow> path \<Rightarrow> world \<Rightarrow> (exc + bool) \<times> world" where
  \<comment> \<open>\<^verbatim>\<open>process_file\<close> of astpool_to_lpbox.py\<close>
  "process_file cd filepath w0 =
     (case read_file cd filepath (print (Processing filepath) w0) of
        (Inl e, w) \<Rightarrow> (Inl e, w)
      | (Inr original, w) \<Rightarrow>
          (let content = process_content original in
           if content \<noteq> original
           then (case write_file cd filepath content w of
                   (Inl e, w') \<Rightarrow> (Inl e, w')
                 | (Inr _, w') \<Rightarrow> (Inr True, w'))
           else (Inr False, w)))"

definition main :: "codec \<Rightarrow> path \<Rightarrow> world \<Rightarrow> exc option \<times> world" where
  \<comment> \<open>\<^verbatim>\<open>main\<close> of astpool_to_lpbox.py\<close>
  "main cd script_dir w0 =
     (let root = lpscript_dir script_dir in
      if \<not> path_exists root w0 then (Some (SystemExit 1), print (NotFound root) w0)
      else
        (let w = print (Running root) w0 in
         case for_each (process_file cd) (glob root ''.rs'' w) 0 w of
           (Inl e, w') \<Rightarrow> (Some e, w')
         | (Inr modified, w') \<Rightarrow> (None, print (Complete modified) w')))"

definition fix_gen_step :: "codec \<Rightarrow> path \<Rightarrow> world \<Rightarrow> (exc + bool) \<times> world" where
  \<comment> \<open>The body of the loop in \<^verbatim>\<open>main\<close> of fix_gen_signatures.py\<close>
  "fix_gen_step cd path w0 =
     (case read_file cd path w0 of
        (Inl e, w) \<Rightarrow> (Inl e, w)
      | (Inr content, w) \<Rightarrow>
          (case fix_gen_file content of
             (changed, new_content) \<Rightarrow>
               if changed
               then (case write_file cd path new_content w of
                       (Inl e, w') \<Rightarrow> (Inl e, w')
                     | (Inr _, w') \<Rightarrow> (Inr True, print (Fixed path) w'))
               else (Inr False, w)))"

definition fix_gen_main :: "codec \<Rightarrow> path \<Rightarrow> world \<Rightarrow> exc option \<times> world" where
  \<comment> \<open>\<^verbatim>\<open>main\<close> of fix_gen_signatures.py\<close>
  "fix_gen_main cd script_dir w0 =
     (let lpscript = lpscript_dir script_dir in
      case for_each (fix_gen_step cd) (glob lpscript ''_gen.rs'' w0) 0 w0 of
        (Inl e, w1) \<Rightarrow> (Some e, w1)
      | (Inr fixed1, w1) \<Rightarrow>
          (case for_each (fix_gen_step cd) (glob lpscript ''_types.rs'' w1) fixed1 w1 of
             (Inl e, w2) \<Rightarrow> (Some e, w2)
           | (Inr fixed, w2) \<Rightarrow> (None, print (FixedCount fixed) w2)))"

definition fix_imports_process_file :: "codec \<Rightarrow> path \<Rightarrow> world \<Rightarrow> (exc + bool) \<times> world" where
  \<comment> \<open>\<^verbatim>\<open>process_file\<close> of fix_imports.py\<close>
  "fix_imports_process_file cd path w0 =
     (case read_file cd path w0 of
        (Inl e, w) \<Rightarrow> (Inl e, w)
      | (Inr content, w) \<Rightarrow>
          (case fix_imports content of
             (changed, new_content) \<Rightarrow>
               if changed
               then (case write_file cd path new_content w of
                       (Inl e, w') \<Rightarrow> (Inl e, w')
                     | (Inr _, w') \<Rightarrow> (Inr True, print (Fixed path) w'))
               else (Inr False, w)))"

definition fix_imports_main :: "codec \<Rightarrow> path \<Rightarrow> world \<Rightarrow> exc option \<times> world" where
  \<comment> \<open>The \<^verbatim>\<open>__main__\<close> block of fix_imports.py\<close>
  "fix_imports_main cd script_dir w0 =
     (let lpscript_src = lpscript_dir script_dir in
      case for_each (fix_imports_process_file cd) (glob lpscript_src ''.rs'' w0) 0 w0 of
        (Inl e, w1) \<Rightarrow> (Some e, w1)
      | (Inr fixed, w1) \<Rightarrow> (None, print (FixedCount fixed) w1))"

subsection \<open>Two small trees\<close>

text \<open>
  The entry points are evaluated below on two trees: one in which the directory
  \<^verbatim>\<open>crates/lp-script/src\<close> is missing, and one in which it holds a file with
  \<^verbatim>\<open>\r\n\<close> line ends that no pass changes and a file that every pass changes.
\<close>

definition tree_without_root :: world where
  "tree_without_root =
     \<lparr>dirs = [[''repo''], [''repo'', ''scripts''], [''repo'', ''crates'']],
      files = [([''repo'', ''crates'', ''a_gen.rs''],
                \<lparr>data = ''fn gen_expr_id(pool: &AstPool) {}'', mtime = 1, atime = 2\<rparr>)],
      clock = 3, stdout = []\<rparr>"

definition tree_with_sources :: world where
  "tree_with_sources =
     \<lparr>dirs = [[''repo''], [''repo'', ''scripts''], [''repo'', ''crates''],
              [''repo'', ''crates'', ''lp-script''],
              [''repo'', ''crates'', ''lp-script'', ''src'']],
      files = [([''repo'', ''crates'', ''lp-script'', ''src'', ''a.rs''],
                \<lparr>data = ''fn main() {}'' @ [CHR 0x0D, CHR 0x0A], mtime = 3, atime = 4\<rparr>),
               ([''repo'', ''crates'', ''lp-script'', ''src'', ''b_gen.rs''],
                \<lparr>data = ''fn gen_expr_id(x: Box<Expr>, pool: &AstPool) {}'' @ newline,
                  mtime = 5, atime = 6\<rparr>)],
      clock = 7, stdout = []\<rparr>"

section \<open>Substitution lemmas\<close>

declare sub_loop.simps [simp del]
declare cat.simps [simp del]

lemma starts_with_prefix: "starts_with n s = prefix n s"
  by (induction n s rule: starts_with.induct) auto

lemma contains_sublist: "contains n s = sublist n s"
  by (induction s) (auto simp: starts_with_prefix sublist_Cons_right)

lemma eat_prefix:
  "prefix n s \<Longrightarrow> n \<noteq> [] \<Longrightarrow>
     eat (length n) \<lparr>prev = p, rest = s, caps = g\<rparr> = \<lparr>prev = Some (last n), rest = drop (length n) s, caps = g\<rparr>"
  by (auto simp: eat_def prefix_def nth_append last_conv_nth)

lemma word_rule_matcher:
  assumes "n \<noteq> []" "list_all is_word n"
  shows "re_matcher (cat [WordB, Lit n, WordB]) repl p s =
     (if \<not> word_opt p \<and> prefix n s \<and> \<not> word_opt (next_char (drop (length n) s))
      then Some (expand repl [], Some (last n), drop (length n) s) else None)"
proof (cases "prefix n s")
  case True
  then obtain t where s: "s = n @ t" by (auto simp: prefix_def)
  from assms obtain x xs where n: "n = x # xs" by (cases n) auto
  have wl: "is_word (last n)" using assms by (metis last_in_set list_all_iff)
  have wx: "is_word x" using assms n by simp
  show ?thesis using True assms wl wx
    by (simp add: cat.simps re_matcher_def search_def starts_with_prefix eat_prefix word_opt_def)
      (auto simp: s n next_char_def split: list.splits option.splits)
next
  case False
  then show ?thesis
    by (simp add: cat.simps re_matcher_def search_def starts_with_prefix)
qed

lemma sub_loop_no_match:
  "m p s = None \<Longrightarrow>
     sub_loop m None p s = (case s of [] \<Rightarrow> [] | c # cs \<Rightarrow> c # sub_loop m None (Some c) cs)"
  by (subst sub_loop.simps) simp

lemma sub_loop_match:
  "m p s = Some (out, p', s') \<Longrightarrow> length s' < length s \<Longrightarrow>
     sub_loop m None p s = out @ sub_loop m None p' s'"
  by (subst sub_loop.simps) (simp add: dec_def)

lemma sub_loop_never:
  "(\<And>q t. suffix t s \<Longrightarrow> m q t = None) \<Longrightarrow> sub_loop m lim p s = s"
proof (induction s arbitrary: p)
  case Nil
  then show ?case by (subst sub_loop.simps) simp
next
  case (Cons c cs)
  have "m p (c # cs) = None" using Cons.prems by simp
  moreover have "sub_loop m lim (Some c) cs = cs"
    using Cons.prems by (intro Cons.IH) (simp add: suffix_Cons)
  ultimately show ?case by (subst sub_loop.simps) simp
qed

lemma word_rule_skip:
  assumes n: "n \<noteq> []" "list_all is_word n" and p: "word_opt p"
  shows "sub_loop (re_matcher (cat [WordB, Lit n, WordB]) repl) None p s =
     takeWhile is_word s @
     (case dropWhile is_word s of [] \<Rightarrow> []
      | c # cs \<Rightarrow> c # sub_loop (re_matcher (cat [WordB, Lit n, WordB]) repl) None (Some c) cs)"
  using p
proof (induction s arbitrary: p)
  case Nil
  have none: "re_matcher (cat [WordB, Lit n, WordB]) repl p [] = None"
    using Nil by (simp add: word_rule_matcher [OF n])
  show ?case using none by (simp add: sub_loop_no_match)
next
  case (Cons c cs)
  have none: "re_matcher (cat [WordB, Lit n, WordB]) repl p (c # cs) = None"
    using Cons.prems by (simp add: word_rule_matcher [OF n])
  show ?case
  proof (cases "is_word c")
    case True
    then have "word_opt (Some c)" by (simp add: word_opt_def)
    from Cons.IH [OF this] True show ?thesis
      using none by (simp add: sub_loop_no_match)
  next
    case False
    then show ?thesis using none by (simp add: sub_loop_no_match)
  qed
qed

lemma takeWhile_word_prefix:
  assumes "prefix n s" "list_all is_word n" "\<not> word_opt (next_char (drop (length n) s))"
  shows "takeWhile is_word s = n \<and> dropWhile is_word s = drop (length n) s"
proof -
  from assms(1) obtain t where s: "s = n @ t" by (auto simp: prefix_def)
  have t: "t = [] \<or> \<not> is_word (hd t)"
    using assms(3) by (cases t) (auto simp: s next_char_def word_opt_def)
  have all: "\<forall>x\<in>set n. is_word x" using assms(2) by (simp add: list_all_iff)
  from t show ?thesis
  proof
    assume "t = []"
    then show ?thesis using all by (simp add: s)
  next
    assume "\<not> is_word (hd t)"
    then show ?thesis using all
      by (cases t) (simp_all add: s takeWhile_append2 dropWhile_append2)
  qed
qed

lemma after_run:
  "\<not> word_opt (next_char (dropWhile is_word s))"
  "takeWhile is_word (dropWhile is_word s) = []"
  "dropWhile is_word (dropWhile is_word s) = dropWhile is_word s"
proof -
  show "\<not> word_opt (next_char (dropWhile is_word s))"
  proof (cases "dropWhile is_word s")
    case Nil
    show ?thesis by (simp add: Nil next_char_def word_opt_def)
  next
    case (Cons a l)
    with hd_dropWhile [of is_word s] have "\<not> is_word a" by simp
    then show ?thesis by (simp add: Cons next_char_def word_opt_def)
  qed
  show "takeWhile is_word (dropWhile is_word s) = []"
  proof (cases "dropWhile is_word s")
    case Nil
    show ?thesis by (simp add: Nil)
  next
    case (Cons a l)
    with hd_dropWhile [of is_word s] have "\<not> is_word a" by simp
    then show ?thesis by (simp add: Cons)
  qed
  show "dropWhile is_word (dropWhile is_word s) = dropWhile is_word s"
  proof (cases "dropWhile is_word s")
    case Nil
    show ?thesis by (simp add: Nil)
  next
    case (Cons a l)
    with hd_dropWhile [of is_word s] have "\<not> is_word a" by simp
    then show ?thesis by (simp add: Cons)
  qed
qed

lemma word_rule_run:
  assumes n: "n \<noteq> []" "list_all is_word n" and p: "\<not> word_opt p"
  shows "sub_loop (re_matcher (cat [WordB, Lit n, WordB]) repl) None p s =
     (if takeWhile is_word s = n then expand repl [] else takeWhile is_word s) @
     (case dropWhile is_word s of [] \<Rightarrow> []
      | c # cs \<Rightarrow> c # sub_loop (re_matcher (cat [WordB, Lit n, WordB]) repl) None (Some c) cs)"
proof (cases "takeWhile is_word s = n")
  case True
  then have s: "s = n @ dropWhile is_word s"
    by (metis takeWhile_dropWhile_id)
  then have pre: "prefix n s" by (metis prefixI)
  have dr: "drop (length n) s = dropWhile is_word s"
    using s by (metis append_eq_conv_conj)
  have m: "re_matcher (cat [WordB, Lit n, WordB]) repl p s =
      Some (expand repl [], Some (last n), dropWhile is_word s)"
    using p pre after_run(1) [of s] dr by (simp add: word_rule_matcher [OF n])
  have "length s = length n + length (dropWhile is_word s)"
    using s by (metis length_append)
  then have len: "length (dropWhile is_word s) < length s"
    using n(1) by simp
  have wl: "word_opt (Some (last n))"
    using n by (simp add: word_opt_def) (metis last_in_set list_all_iff)
  have "sub_loop (re_matcher (cat [WordB, Lit n, WordB]) repl) None p s =
      expand repl [] @ sub_loop (re_matcher (cat [WordB, Lit n, WordB]) repl) None (Some (last n))
        (dropWhile is_word s)"
    using m len by (rule sub_loop_match)
  then show ?thesis
    using True by (simp add: word_rule_skip [OF n wl] after_run)
next
  case False
  have none: "re_matcher (cat [WordB, Lit n, WordB]) repl p s = None"
    using False takeWhile_word_prefix [of n s] n(2) by (auto simp: word_rule_matcher [OF n])
  show ?thesis
  proof (cases s)
    case Nil
    then show ?thesis using n(1) none by (simp add: sub_loop_no_match)
  next
    case (Cons c cs)
    show ?thesis
    proof (cases "is_word c")
      case True
      then have "word_opt (Some c)" by (simp add: word_opt_def)
      from word_rule_skip [OF n this, of repl cs] True False show ?thesis
        using none by (simp add: Cons sub_loop_no_match)
    next
      case nw: False
      then show ?thesis using none n(1) by (auto simp add: Cons sub_loop_no_match)
    qed
  qed
qed


lemma prefix_before_foreign:
  assumes "c \<notin> set n"
  shows "prefix n (a @ c # b) = prefix n a"
proof
  assume "prefix n (a @ c # b)"
  then consider "prefix n a" | us where "n = a @ us" "prefix us (c # b)"
    by (auto simp: prefix_append)
  then show "prefix n a"
  proof cases
    case 1
    then show ?thesis .
  next
    case 2
    then show ?thesis using assms by (cases us) auto
  qed
next
  assume "prefix n a"
  then show "prefix n (a @ c # b)" by (simp add: prefix_prefix)
qed

lemma sublist_around_foreign:
  assumes "c \<notin> set n" "n \<noteq> []"
  shows "sublist n (a @ c # b) = (sublist n a \<or> sublist n b)"
proof (induction a)
  case Nil
  have "\<not> prefix n (c # b)" using assms by (cases n) auto
  then show ?case using assms by (simp add: sublist_Cons_right)
next
  case (Cons x a)
  have "prefix n (x # a @ c # b) = prefix n (x # a)"
    using prefix_before_foreign [OF assms(1), of "x # a" b] by simp
  then show ?case using Cons by (auto simp: sublist_Cons_right)
qed

lemma whole_at_around_foreign:
  assumes "c \<notin> set n" "n \<noteq> []" "\<not> is_word c"
  shows "whole_at n p (a @ c # b) = (whole_at n p a \<and> whole_at n (Some c) b)"
proof (induction a arbitrary: p)
  case Nil
  have "\<not> prefix n (c # b)" using assms by (cases n) auto
  then show ?case by (simp add: starts_with_prefix)
next
  case (Cons x a)
  have pre: "prefix n (x # a @ c # b) = prefix n (x # a)"
    using prefix_before_foreign [OF assms(1), of "x # a" b] by simp
  have nxt: "word_opt (next_char (drop (length n) (x # a @ c # b)))
      = word_opt (next_char (drop (length n) (x # a)))" if "prefix n (x # a)"
  proof -
    from that obtain t where t: "x # a = n @ t" by (auto simp: prefix_def)
    have "x # a @ c # b = n @ t @ c # b" using t by (metis append_Cons append_assoc)
    then have "drop (length n) (x # a @ c # b) = t @ c # b" by (metis append_eq_conv_conj)
    moreover have "drop (length n) (x # a) = t" using t by (metis append_eq_conv_conj)
    ultimately show ?thesis using assms(3)
      by (cases t) (simp_all add: next_char_def word_opt_def)
  qed
  show ?case using Cons.IH [of "Some x"] pre nxt
    by (auto simp: starts_with_prefix)
qed

lemma whole_at_no_occurrence: "\<not> sublist n a \<Longrightarrow> whole_at n p a"
  by (induction a arbitrary: p) (auto simp: starts_with_prefix sublist_Cons_right)

lemma whole_at_append:
  "whole_at n p (u @ t) \<Longrightarrow> whole_at n (if u = [] then p else Some (last u)) t"
  by (induction u arbitrary: p) auto

lemma whole_at_run:
  assumes w: "whole_at n p r" and p: "\<not> word_opt p" and r: "list_all is_word r"
    and n: "n \<noteq> []" and s: "sublist n r"
  shows "r = n"
proof -
  from s obtain u v where uv: "r = u @ n @ v" by (auto simp: sublist_def)
  from n obtain x xs where x: "n = x # xs" by (cases n) auto
  have "whole_at n (if u = [] then p else Some (last u)) (n @ v)"
    using w uv whole_at_append by blast
  then have bnd: "\<not> word_opt (if u = [] then p else Some (last u))"
      "\<not> word_opt (next_char v)"
    by (simp_all add: x starts_with_prefix)
  have all: "\<forall>y\<in>set r. is_word y" using r by (simp add: list_all_iff)
  have "u = []"
  proof (rule ccontr)
    assume "u \<noteq> []"
    then have "last u \<in> set r" by (simp add: uv)
    with all bnd(1) \<open>u \<noteq> []\<close> show False by (simp add: word_opt_def)
  qed
  moreover have "v = []"
  proof (rule ccontr)
    assume "v \<noteq> []"
    then obtain y ys where "v = y # ys" by (cases v) auto
    with all bnd(2) show False by (simp add: uv next_char_def word_opt_def)
  qed
  ultimately show ?thesis by (simp add: uv)
qed


lemma run_cases:
  obtains (last_run) "dropWhile is_word s = []" "takeWhile is_word s = s" "list_all is_word s"
  | (more) c cs where "dropWhile is_word s = c # cs" "\<not> is_word c"
      "s = takeWhile is_word s @ c # cs" "list_all is_word (takeWhile is_word s)"
      "length cs < length s"
proof (cases "dropWhile is_word s")
  case Nil
  then have "takeWhile is_word s = s" by (metis takeWhile_dropWhile_id append_Nil2)
  moreover have "list_all is_word s" using Nil by (simp add: list_all_iff)
  ultimately show ?thesis using Nil last_run by blast
next
  case (Cons c cs)
  with hd_dropWhile [of is_word s] have c: "\<not> is_word c" by simp
  have s: "s = takeWhile is_word s @ c # cs"
    using Cons by (metis takeWhile_dropWhile_id)
  have "length s = length (takeWhile is_word s) + Suc (length cs)"
    by (subst s) simp
  then have "length cs < length s" by simp
  moreover have "list_all is_word (takeWhile is_word s)"
    by (simp add: list_all_iff) (metis set_takeWhileD)
  ultimately show ?thesis using Cons c s more by blast
qed

lemma word_rule_last_run:
  assumes "n \<noteq> []" "list_all is_word n" "\<not> word_opt p" "dropWhile is_word s = []"
  shows "sub_loop (re_matcher (cat [WordB, Lit n, WordB]) repl) None p s =
     (if takeWhile is_word s = n then expand repl [] else takeWhile is_word s)"
  unfolding word_rule_run [OF assms(1-3), of repl s] assms(4) by simp

lemma word_rule_more:
  assumes "n \<noteq> []" "list_all is_word n" "\<not> word_opt p" "dropWhile is_word s = c # cs"
  shows "sub_loop (re_matcher (cat [WordB, Lit n, WordB]) repl) None p s =
     (if takeWhile is_word s = n then expand repl [] else takeWhile is_word s) @
     c # sub_loop (re_matcher (cat [WordB, Lit n, WordB]) repl) None (Some c) cs"
  unfolding word_rule_run [OF assms(1-3), of repl s] assms(4) by simp

lemma word_rule_eliminates:
  assumes n: "n \<noteq> []" "list_all is_word n"
    and out: "\<not> sublist n (expand repl [])"
  shows "\<not> word_opt p \<Longrightarrow> whole_at n p s \<Longrightarrow>
     \<not> sublist n (sub_loop (re_matcher (cat [WordB, Lit n, WordB]) repl) None p s)"
proof (induction "length s" arbitrary: s p rule: less_induct)
  case less
  let ?r = "takeWhile is_word s"
  let ?r' = "if ?r = n then expand repl [] else ?r"
  have nset: "\<And>c. \<not> is_word c \<Longrightarrow> c \<notin> set n"
    using n(2) by (auto simp: list_all_iff)
  show ?case
  proof (cases s rule: run_cases)
    case last_run
    have "whole_at n p ?r" "list_all is_word ?r"
      using less.prems(2) last_run(3) by (simp_all only: last_run(2) simp_thms)
    then have "\<not> sublist n ?r" if "?r \<noteq> n"
      using whole_at_run [OF _ less.prems(1) _ n(1)] that by blast
    then have "\<not> sublist n ?r'" using out by simp
    then show ?thesis
      by (simp only: word_rule_last_run [OF n less.prems(1) last_run(1)] simp_thms)
  next
    case (more c cs)
    have "whole_at n p (?r @ c # cs)" using less.prems(2) more(3) by simp
    then have w: "whole_at n p ?r" "whole_at n (Some c) cs"
      by (simp_all add: whole_at_around_foreign [OF nset [OF more(2)] n(1) more(2)])
    have "\<not> sublist n ?r" if "?r \<noteq> n"
      using whole_at_run [OF w(1) less.prems(1) more(4) n(1)] that by blast
    then have r: "\<not> sublist n ?r'" using out by simp
    have "\<not> word_opt (Some c)" using more(2) by (simp add: word_opt_def)
    from less.hyps [OF more(5) this w(2)] r show ?thesis
      by (simp only: word_rule_more [OF n less.prems(1) more(1)]
          sublist_around_foreign [OF nset [OF more(2)] n(1)] simp_thms)
  qed
qed

lemma word_rule_no_new:
  assumes n: "n \<noteq> []" "list_all is_word n"
    and k: "k \<noteq> []" "list_all is_word k"
    and out: "\<not> sublist k (expand repl [])"
  shows "\<not> word_opt p \<Longrightarrow> \<not> sublist k s \<Longrightarrow>
     \<not> sublist k (sub_loop (re_matcher (cat [WordB, Lit n, WordB]) repl) None p s)"
proof (induction "length s" arbitrary: s p rule: less_induct)
  case less
  let ?r = "takeWhile is_word s"
  let ?r' = "if ?r = n then expand repl [] else ?r"
  have kset: "\<And>c. \<not> is_word c \<Longrightarrow> c \<notin> set k"
    using k(2) by (auto simp: list_all_iff)
  show ?case
  proof (cases s rule: run_cases)
    case last_run
    have "\<not> sublist k ?r" using less.prems(2) by (simp only: last_run(2) simp_thms)
    then have "\<not> sublist k ?r'" using out by simp
    then show ?thesis
      by (simp only: word_rule_last_run [OF n less.prems(1) last_run(1)] simp_thms)
  next
    case (more c cs)
    have "\<not> sublist k (?r @ c # cs)" using less.prems(2) more(3) by simp
    then have w: "\<not> sublist k ?r" "\<not> sublist k cs"
      by (simp_all add: sublist_around_foreign [OF kset [OF more(2)] k(1)])
    have r: "\<not> sublist k ?r'" using out w(1) by simp
    have "\<not> word_opt (Some c)" using more(2) by (simp add: word_opt_def)
    from less.hyps [OF more(5) this w(2)] r show ?thesis
      by (simp only: word_rule_more [OF n less.prems(1) more(1)]
          sublist_around_foreign [OF kset [OF more(2)] k(1)] simp_thms)
  qed
qed

lemma word_rule_keeps_whole:
  assumes n: "n \<noteq> []" "list_all is_word n"
    and k: "k \<noteq> []" "list_all is_word k"
    and out: "\<not> sublist k (expand repl [])"
  shows "\<not> word_opt p \<Longrightarrow> whole_at k p s \<Longrightarrow>
     whole_at k p (sub_loop (re_matcher (cat [WordB, Lit n, WordB]) repl) None p s)"
proof (induction "length s" arbitrary: s p rule: less_induct)
  case less
  let ?r = "takeWhile is_word s"
  let ?r' = "if ?r = n then expand repl [] else ?r"
  have kset: "\<And>c. \<not> is_word c \<Longrightarrow> c \<notin> set k"
    using k(2) by (auto simp: list_all_iff)
  have o: "whole_at k p (expand repl [])"
    using out by (rule whole_at_no_occurrence)
  show ?case
  proof (cases s rule: run_cases)
    case last_run
    have "whole_at k p ?r" using less.prems(2) by (simp only: last_run(2) simp_thms)
    then have "whole_at k p ?r'" using o by simp
    then show ?thesis
      by (simp only: word_rule_last_run [OF n less.prems(1) last_run(1)] simp_thms)
  next
    case (more c cs)
    have "whole_at k p (?r @ c # cs)" using less.prems(2) more(3) by simp
    then have w: "whole_at k p ?r" "whole_at k (Some c) cs"
      by (simp_all add: whole_at_around_foreign [OF kset [OF more(2)] k(1) more(2)])
    have r: "whole_at k p ?r'" using o w(1) by simp
    have "\<not> word_opt (Some c)" using more(2) by (simp add: word_opt_def)
    from less.hyps [OF more(5) this w(2)] r show ?thesis
      by (simp only: word_rule_more [OF n less.prems(1) more(1)]
          whole_at_around_foreign [OF kset [OF more(2)] k(1) more(2)] simp_thms)
  qed
qed

lemma sublist_of_suffix: "sublist n t \<Longrightarrow> suffix t s \<Longrightarrow> sublist n s"
  by (meson sublist_order.order_trans suffix_imp_sublist)

lemma rest_eat: "rest (eat n st) = drop n (rest st)"
  by (simp add: eat_def)

lemma run_rest_suffix: "st' \<in> set (run r st) \<Longrightarrow> suffix (rest st') (rest st)"
proof (induction r arbitrary: st st')
  case (Seq r1 r2)
  then obtain mid where "mid \<in> set (run r1 st)" "st' \<in> set (run r2 mid)" by auto
  then show ?case using Seq.IH suffix_order.trans by blast
qed (auto simp: rest_eat suffix_drop split: if_splits)

lemma run_Seq_mem:
  "st' \<in> set (run (Seq a b) st) = (\<exists>mid\<in>set (run a st). st' \<in> set (run b mid))"
  by auto

lemma run_Lit_mem:
  "st' \<in> set (run (Lit l) st) \<Longrightarrow> prefix l (rest st)"
  by (auto simp: starts_with_prefix split: if_splits)

lemma search_mem:
  "search r p s \<noteq> None \<Longrightarrow> \<exists>st'. st' \<in> set (run r \<lparr>prev = p, rest = s, caps = []\<rparr>)"
  by (auto simp: search_def split: list.splits)

lemma run_ends_with_lit:
  assumes "st' \<in> set (run (Seq r (Lit n)) st)"
  shows "sublist n (rest st)"
proof -
  from assms obtain mid where mid: "mid \<in> set (run r st)" "st' \<in> set (run (Lit n) mid)"
    unfolding run_Seq_mem by blast
  have "suffix (rest mid) (rest st)" using mid(1) by (rule run_rest_suffix)
  moreover have "sublist n (rest mid)" using run_Lit_mem [OF mid(2)] by blast
  ultimately show ?thesis by (rule sublist_of_suffix [rotated])
qed

lemma comma_rule_needs_name:
  assumes "re_matcher (cat [Lit '','', Many Space, Lit n]) repl p s \<noteq> None"
  shows "sublist n s"
proof -
  have "search (Seq (Lit '','') (Seq (Many Space) (Lit n))) p s \<noteq> None"
    using assms by (auto simp: re_matcher_def cat.simps split: option.splits)
  then obtain st' where
    "st' \<in> set (run (Seq (Lit '','') (Seq (Many Space) (Lit n))) \<lparr>prev = p, rest = s, caps = []\<rparr>)"
    using search_mem by blast
  then obtain mid where mid: "mid \<in> set (run (Lit '','') \<lparr>prev = p, rest = s, caps = []\<rparr>)"
      "st' \<in> set (run (Seq (Many Space) (Lit n)) mid)"
    unfolding run_Seq_mem [of st' "Lit '',''"] by blast
  have "sublist n (rest mid)" using mid(2) by (rule run_ends_with_lit)
  moreover have "suffix (rest mid) s" using run_rest_suffix [OF mid(1)] by simp
  ultimately show ?thesis by (rule sublist_of_suffix)
qed

lemma comma_rule_never:
  assumes "\<not> sublist n s"
  shows "re_sub (cat [Lit '','', Many Space, Lit n]) [] s = s"
  unfolding re_sub_def
proof (rule sub_loop_never)
  fix q t
  assume "suffix t s"
  then have "\<not> sublist n t" using assms sublist_of_suffix by blast
  then show "re_matcher (cat [Lit '','', Many Space, Lit n]) [] q t = None"
    using comma_rule_needs_name by blast
qed


lemma names_are_words:
  "list_all is_word ''ExprId''" "list_all is_word ''StmtId''"
  by (simp_all add: is_word_def between_def)

lemma no_sublist_of_shorter: "length a < length n \<Longrightarrow> \<not> sublist n a"
  using sublist_length_le by fastforce

section \<open>The import directive\<close>

lemma str_replace_zero: "str_replace old new s 0 = s"
  by (cases s) simp_all

lemma prefix_of_longer_prefix:
  assumes "prefix k t" "prefix x t" "length k \<le> length x"
  shows "prefix k x"
  using assms by (metis prefix_length_prefix)

lemma not_first_inside:
  assumes first: "\<not> sublist k (a @ butlast k)" and a: "a = a1 @ a2" "a2 \<noteq> []"
  shows "\<not> prefix k (a2 @ k @ b)"
proof
  assume p: "prefix k (a2 @ k @ b)"
  have "k = butlast k @ [last k]" if "k \<noteq> []" using that by simp
  then have "prefix (a2 @ butlast k) (a2 @ k @ b)"
    by (cases "k = []") (simp, metis append_assoc prefixI same_prefix_prefix)
  moreover have "length k \<le> length (a2 @ butlast k)"
    using a(2) by (cases a2) simp_all
  ultimately have "prefix k (a2 @ butlast k)" using p prefix_of_longer_prefix by blast
  then have "sublist k (a1 @ a2 @ butlast k)"
    by (meson prefix_imp_sublist sublist_append_leftI sublist_order.order_trans)
  then show False using first a(1) by simp
qed

lemma str_replace_first:
  assumes "old \<noteq> []" "\<not> sublist old (a @ butlast old)"
  shows "str_replace old new (a @ old @ b) (Suc 0) = a @ new @ b"
  using assms(2)
proof (induction a)
  case Nil
  obtain x xs where x: "old = x # xs" using assms(1) by (cases old) auto
  have "starts_with old (old @ b)" by (simp add: starts_with_prefix)
  then show ?case
    using assms(1) by (simp add: x str_replace_zero)
next
  case (Cons c a)
  have "\<not> prefix old ((c # a) @ old @ b)"
    using not_first_inside [OF Cons.prems, of "[]" "c # a" b] by simp
  moreover have "\<not> sublist old (a @ butlast old)"
    using Cons.prems by (simp add: sublist_Cons_right)
  ultimately show ?case using Cons.IH by (simp add: starts_with_prefix)
qed

lemma first_split_exists:
  assumes "k \<noteq> []" "sublist k s"
  shows "\<exists>a b. s = a @ k @ b \<and> \<not> sublist k (a @ butlast k)"
  using assms(2)
proof (induction s)
  case Nil
  then show ?case using assms(1) by simp
next
  case (Cons c cs)
  show ?case
  proof (cases "prefix k (c # cs)")
    case True
    then obtain b where "c # cs = k @ b" by (auto simp: prefix_def)
    moreover have "\<not> sublist k (butlast k)"
      using assms(1) by (intro no_sublist_of_shorter) simp
    ultimately show ?thesis by (metis append_Nil)
  next
    case False
    then have "sublist k cs" using Cons.prems by (simp add: sublist_Cons_right)
    then obtain a b where ab: "cs = a @ k @ b" "\<not> sublist k (a @ butlast k)"
      using Cons.IH by blast
    have "\<not> prefix k (c # a @ butlast k)"
    proof
      assume "prefix k (c # a @ butlast k)"
      moreover have "prefix (c # a @ butlast k) (c # cs)"
        using assms(1) ab(1)
        by (metis append_butlast_last_id append_assoc prefixI Cons_prefix_Cons same_prefix_prefix)
      ultimately show False using False by (meson prefix_order.trans)
    qed
    then have "\<not> sublist k ((c # a) @ butlast k)"
      using ab(2) by (simp add: sublist_Cons_right)
    then show ?thesis using ab(1) by (metis append_Cons)
  qed
qed

lemma occurrences_none: "\<not> sublist n s \<Longrightarrow> occurrences n s = 0"
  by (induction s) (auto simp: sublist_Cons_right starts_with_prefix)

lemma occurrences_around_foreign:
  assumes "d \<notin> set n" "n \<noteq> []"
  shows "occurrences n (a @ d # b) = occurrences n a + occurrences n b"
proof (induction a)
  case Nil
  have "\<not> prefix n (d # b)" using assms by (cases n) auto
  then show ?case by (simp add: starts_with_prefix)
next
  case (Cons x a)
  have "prefix n (x # a @ d # b) = prefix n (x # a)"
    using prefix_before_foreign [OF assms(1), of "x # a" b] by simp
  then show ?case using Cons by (simp add: starts_with_prefix)
qed

lemma occurrences_skip:
  assumes "hd n \<notin> set x" "n \<noteq> []"
  shows "occurrences n (x @ b) = occurrences n b"
  using assms(1)
proof (induction x)
  case Nil
  then show ?case by simp
next
  case (Cons c x)
  have "\<not> prefix n (c # x @ b)" using Cons.prems assms(2) by (cases n) auto
  then show ?case using Cons by (simp add: starts_with_prefix)
qed


lemma sub_loop_done: "sub_loop m (Some 0) p s = s"
  by (subst sub_loop.simps) simp

lemma sub_loop_first:
  assumes m: "\<And>q. m q s = Some (out, p', s')" and len: "length s' < length s"
    and none: "\<And>a1 a2 q. a = a1 @ a2 \<Longrightarrow> a2 \<noteq> [] \<Longrightarrow> m q (a2 @ s) = None"
  shows "sub_loop m (Some (Suc 0)) p (a @ s) = a @ out @ s'"
  using none
proof (induction a arbitrary: p)
  case Nil
  show ?case using m [of p] len
    by (subst sub_loop.simps) (simp add: dec_def sub_loop_done)
next
  case (Cons c a)
  have "m p ((c # a) @ s) = None" using Cons.prems [of "[]" "c # a"] by simp
  moreover have "sub_loop m (Some (Suc 0)) (Some c) (a @ s) = a @ out @ s'"
  proof (rule Cons.IH)
    fix a1 a2 q
    assume "a = a1 @ a2" "a2 \<noteq> []"
    then show "m q (a2 @ s) = None" using Cons.prems [of "c # a1" a2] by simp
  qed
  ultimately show ?case by (subst sub_loop.simps) simp
qed

lemma prefix_append_drop:
  "prefix (a @ b) s = (prefix a s \<and> prefix b (drop (length a) s))"
  by (auto simp: prefix_def)

lemma use_rule_matcher:
  "re_matcher (cat [Grp (Lit newline), Grp (Lit ''use '')]) [Ref 1, Txt x, Ref 2] p s =
     (if prefix (newline @ ''use '') s
      then Some (newline @ x @ ''use '', Some CHR '' '', drop (length (newline @ ''use '')) s)
      else None)"
proof (cases "prefix (newline @ ''use '') s")
  case True
  then obtain t where "s = newline @ ''use '' @ t" by (auto simp: prefix_def)
  then show ?thesis
    by (simp add: re_matcher_def search_def cat.simps newline_def eat_def)
next
  case False
  then have "\<not> (prefix newline s \<and> prefix ''use '' (drop (length newline) s))"
    by (simp only: prefix_append_drop simp_thms)
  then show ?thesis using False
    by (auto simp: re_matcher_def search_def cat.simps eat_def starts_with_prefix
        newline_def split: list.splits if_splits)
qed

lemma use_rule_first:
  assumes "\<not> sublist (newline @ ''use '') (a @ butlast (newline @ ''use ''))"
  shows "re_sub_count (cat [Grp (Lit newline), Grp (Lit ''use '')]) [Ref 1, Txt x, Ref 2]
           (a @ (newline @ ''use '') @ b) 1
         = a @ newline @ x @ ''use '' @ b"
proof -
  let ?k = "newline @ ''use ''"
  let ?m = "re_matcher (cat [Grp (Lit newline), Grp (Lit ''use '')]) [Ref 1, Txt x, Ref 2]"
  have "sub_loop ?m (Some (Suc 0)) None (a @ (?k @ b)) = a @ (newline @ x @ ''use '') @ b"
  proof (rule sub_loop_first)
    show "?m q (?k @ b) = Some (newline @ x @ ''use '', Some CHR '' '', b)" for q
      by (subst use_rule_matcher) simp
    show "length b < length (?k @ b)" by simp
    show "?m q (a2 @ ?k @ b) = None" if "a = a1 @ a2" "a2 \<noteq> []" for a1 a2 q
      using not_first_inside [OF assms that, of b] by (subst use_rule_matcher) simp
  qed
  then show ?thesis by (simp add: re_sub_count_def)
qed


lemma sublist_trans: "sublist a b \<Longrightarrow> sublist b c \<Longrightarrow> sublist a c"
  by (rule sublist_order.order_trans)

lemma import_in_statement: "sublist ''use lp_pool::LpBox'' ''use lp_pool::LpBox;''"
proof -
  have "''use lp_pool::LpBox;'' = ''use lp_pool::LpBox'' @ '';''" by simp
  then show ?thesis by (metis sublist_append_rightI)
qed

lemma statement_once:
  assumes "\<not> sublist ''use lp_pool::LpBox'' x" "\<not> sublist ''use lp_pool::LpBox'' y"
  shows "occurrences ''use lp_pool::LpBox;'' (x @ newline @ ''use lp_pool::LpBox;'' @ y) = 1"
proof -
  let ?stmt = "''use lp_pool::LpBox;''"
  have no: "\<not> sublist ?stmt z" if "\<not> sublist ''use lp_pool::LpBox'' z" for z
    using that import_in_statement sublist_trans by blast
  have "occurrences ?stmt (x @ CHR 0x0A # (?stmt @ y))
      = occurrences ?stmt x + occurrences ?stmt (?stmt @ y)"
    by (rule occurrences_around_foreign) simp_all
  moreover have "occurrences ?stmt x = 0"
    using no [OF assms(1)] by (rule occurrences_none)
  moreover have "occurrences ?stmt (?stmt @ y) = 1 + occurrences ?stmt (''se lp_pool::LpBox;'' @ y)"
    by (simp add: starts_with_prefix)
  moreover have "occurrences ?stmt (''se lp_pool::LpBox;'' @ y) = occurrences ?stmt y"
    by (rule occurrences_skip) simp_all
  moreover have "occurrences ?stmt y = 0"
    using no [OF assms(2)] by (rule occurrences_none)
  ultimately show ?thesis by (simp add: newline_def)
qed

lemma statement_once_before_use:
  assumes "\<not> sublist ''use lp_pool::LpBox'' (a @ newline @ ''use '' @ b)"
  shows "occurrences ''use lp_pool::LpBox;''
           (a @ newline @ ''use lp_pool::LpBox;'' @ newline @ ''use '' @ b) = 1"
proof -
  have a: "\<not> sublist ''use lp_pool::LpBox'' a"
    using assms by (meson sublist_append_rightI sublist_trans)
  have "sublist (newline @ ''use '' @ b) (a @ newline @ ''use '' @ b)"
    by (rule sublist_append_leftI)
  then have b: "\<not> sublist ''use lp_pool::LpBox'' (newline @ ''use '' @ b)"
    using assms sublist_trans by blast
  show ?thesis using statement_once [OF a b] by simp
qed

lemma statement_once_after_anchor:
  assumes "\<not> sublist ''use lp_pool::LpBox'' (a @ ''extern crate alloc;'' @ b)"
  shows "occurrences ''use lp_pool::LpBox;''
           (a @ ''extern crate alloc;'' @ newline @ ''use lp_pool::LpBox;'' @ b) = 1"
proof -
  have "sublist (a @ ''extern crate alloc;'') ((a @ ''extern crate alloc;'') @ b)"
    by (rule sublist_append_rightI)
  then have a: "\<not> sublist ''use lp_pool::LpBox'' (a @ ''extern crate alloc;'')"
    using assms sublist_trans by fastforce
  have "sublist b ((a @ ''extern crate alloc;'') @ b)"
    by (rule sublist_append_leftI)
  then have b: "\<not> sublist ''use lp_pool::LpBox'' b"
    using assms sublist_trans by fastforce
  show ?thesis using statement_once [OF a b] by simp
qed

lemma add_lpbox_import_after_anchor:
  assumes "content \<noteq> original" "contains ''LpBox'' content"
    "\<not> contains ''use lp_pool::LpBox'' content"
    "splits_at_first ''extern crate alloc;'' content a b"
  shows "add_lpbox_import original content
       = a @ ''extern crate alloc;'' @ newline @ ''use lp_pool::LpBox;'' @ b"
proof -
  have c: "content = a @ ''extern crate alloc;'' @ b"
    and f: "\<not> sublist ''extern crate alloc;'' (a @ butlast ''extern crate alloc;'')"
    using assms(4) unfolding splits_at_first_def contains_sublist by blast+
  have "contains ''extern crate alloc;'' content"
    unfolding contains_sublist c by (rule sublist_appendI)
  moreover have "str_replace ''extern crate alloc;''
      (''extern crate alloc;'' @ newline @ ''use lp_pool::LpBox;'') content 1
    = a @ (''extern crate alloc;'' @ newline @ ''use lp_pool::LpBox;'') @ b"
    unfolding c One_nat_def using f by (intro str_replace_first) simp_all
  ultimately show ?thesis using assms(1-3) by (simp add: add_lpbox_import_def)
qed

lemma add_lpbox_import_before_use:
  assumes "content \<noteq> original" "contains ''LpBox'' content"
    "\<not> contains ''use lp_pool::LpBox'' content"
    "\<not> contains ''extern crate alloc;'' content"
    "splits_at_first (newline @ ''use '') content a b"
  shows "add_lpbox_import original content
       = a @ newline @ ''use lp_pool::LpBox;'' @ newline @ ''use '' @ b"
proof -
  have c: "content = a @ (newline @ ''use '') @ b"
    and f: "\<not> sublist (newline @ ''use '') (a @ butlast (newline @ ''use ''))"
    using assms(5) unfolding splits_at_first_def contains_sublist by blast+
  have "contains (newline @ ''use '') content"
    unfolding contains_sublist c by (rule sublist_appendI)
  moreover have "re_sub_count (cat [Grp (Lit newline), Grp (Lit ''use '')])
      [Ref 1, Txt (''use lp_pool::LpBox;'' @ newline), Ref 2] content 1
    = a @ newline @ (''use lp_pool::LpBox;'' @ newline) @ ''use '' @ b"
    unfolding c using f by (rule use_rule_first)
  ultimately show ?thesis using assms(1-4) by (simp add: add_lpbox_import_def)
qed

section \<open>Occurrences that a substitution keeps\<close>

lemma caps_eat: "caps (eat n st) = caps st"
  by (simp add: eat_def)

lemma mem_Many:
  "st' \<in> set (run (Many k) st) =
     (\<exists>n. n \<le> length (takeWhile (in_cls k) (rest st)) \<and> st' = eat n st)"
proof -
  have "set (rev [0 ..< Suc (length (takeWhile (in_cls k) (rest st)))])
      = {n. n \<le> length (takeWhile (in_cls k) (rest st))}"
    by auto
  then show ?thesis by (simp del: upt_Suc) blast
qed

lemma mem_Many1:
  "st' \<in> set (run (Many1 k) st) =
     (\<exists>n. 1 \<le> n \<and> n \<le> length (takeWhile (in_cls k) (rest st)) \<and> st' = eat n st)"
proof -
  have "set (rev [1 ..< Suc (length (takeWhile (in_cls k) (rest st)))])
      = {n. 1 \<le> n \<and> n \<le> length (takeWhile (in_cls k) (rest st))}"
    by auto
  then show ?thesis by (simp del: upt_Suc) blast
qed

lemma run_consumed:
  "st' \<in> set (run r st) \<Longrightarrow>
     \<exists>M. rest st = M @ rest st' \<and> (\<forall>c\<in>set M. may r c) \<and> (M = [] \<longrightarrow> nullable r)
       \<and> (M \<noteq> [] \<longrightarrow> last_may r (last M))"
proof (induction r arbitrary: st st')
  case (Lit l)
  then have l: "prefix l (rest st)" "st' = eat (length l) st"
    by (auto simp: starts_with_prefix split: if_splits)
  then obtain t where t: "rest st = l @ t" by (auto simp: prefix_def)
  have "rest st = l @ rest st'" using l(2) t by (simp add: rest_eat)
  then show ?case by (intro exI [of _ l]) auto
next
  case (Many k)
  then obtain n where n: "n \<le> length (takeWhile (in_cls k) (rest st))" "st' = eat n st"
    unfolding mem_Many by blast
  let ?M = "take n (rest st)"
  have "?M = take n (takeWhile (in_cls k) (rest st))"
    using n(1) by (metis takeWhile_dropWhile_id take_append diff_is_0_eq take_0 append_Nil2)
  then have "set ?M \<subseteq> set (takeWhile (in_cls k) (rest st))"
    by (metis set_take_subset)
  then have all: "\<forall>c\<in>set ?M. in_cls k c" by (auto dest: set_takeWhileD)
  have "rest st = ?M @ rest st'" using n(2) by (simp add: rest_eat)
  then show ?case using all by (intro exI [of _ ?M]) auto
next
  case (Many1 k)
  then obtain n where n: "1 \<le> n" "n \<le> length (takeWhile (in_cls k) (rest st))" "st' = eat n st"
    unfolding mem_Many1 by blast
  let ?M = "take n (rest st)"
  have "?M = take n (takeWhile (in_cls k) (rest st))"
    using n(2) by (metis takeWhile_dropWhile_id take_append diff_is_0_eq take_0 append_Nil2)
  then have "set ?M \<subseteq> set (takeWhile (in_cls k) (rest st))"
    by (metis set_take_subset)
  then have all: "\<forall>c\<in>set ?M. in_cls k c" by (auto dest: set_takeWhileD)
  have ne: "?M \<noteq> []" using n(1,2) by auto
  have "rest st = ?M @ rest st'" using n(3) by (simp add: rest_eat)
  then show ?case using all ne by (intro exI [of _ ?M]) auto
next
  case (Opt r)
  then consider "st' \<in> set (run r st)" | "st' = st" by auto
  then show ?case
  proof cases
    case 1
    from Opt.IH [OF this] show ?thesis by auto
  next
    case 2
    then show ?thesis by (intro exI [of _ "[]"]) simp
  qed
next
  case (Seq r1 r2)
  then obtain mid where mid: "mid \<in> set (run r1 st)" "st' \<in> set (run r2 mid)" by auto
  from Seq.IH(1) [OF mid(1)] obtain M1 where M1: "rest st = M1 @ rest mid"
    "\<forall>c\<in>set M1. may r1 c" "M1 = [] \<longrightarrow> nullable r1" "M1 \<noteq> [] \<longrightarrow> last_may r1 (last M1)"
    by blast
  from Seq.IH(2) [OF mid(2)] obtain M2 where M2: "rest mid = M2 @ rest st'"
    "\<forall>c\<in>set M2. may r2 c" "M2 = [] \<longrightarrow> nullable r2" "M2 \<noteq> [] \<longrightarrow> last_may r2 (last M2)"
    by blast
  show ?case
  proof (cases "M2 = []")
    case True
    then show ?thesis using M1 M2 by (intro exI [of _ M1]) auto
  next
    case False
    then show ?thesis using M1 M2 by (intro exI [of _ "M1 @ M2"]) auto
  qed
next
  case (Alt r1 r2)
  then consider "st' \<in> set (run r1 st)" | "st' \<in> set (run r2 st)" by auto
  then show ?case
  proof cases
    case 1
    from Alt.IH(1) [OF this] show ?thesis by auto
  next
    case 2
    from Alt.IH(2) [OF this] show ?thesis by auto
  qed
next
  case (Grp r)
  then obtain st1 where st1: "st1 \<in> set (run r st)" "rest st' = rest st1" by auto
  from Grp.IH [OF st1(1)] show ?case using st1(2) by auto
next
  case WordB
  then show ?case by (intro exI [of _ "[]"]) (auto split: if_splits)
next
  case Eol
  then show ?case by (intro exI [of _ "[]"]) (auto split: if_splits)
next
  case (Ahead r)
  then show ?case by (intro exI [of _ "[]"]) (auto split: if_splits)
qed

lemma run_first_lit: "st' \<in> set (run r st) \<Longrightarrow> prefix (first_lit r) (rest st)"
proof (induction r arbitrary: st st' rule: first_lit.induct)
  case (1 l)
  then show ?case by (auto simp: starts_with_prefix split: if_splits)
next
  case (2 r)
  then show ?case by (auto split: if_splits)
next
  case (3 l r)
  then show ?case by (auto simp: starts_with_prefix split: if_splits)
qed simp_all


lemma sub_loop_empty_match:
  "m p (c # cs) = Some (out, p', s') \<Longrightarrow> \<not> length s' < length (c # cs) \<Longrightarrow>
     sub_loop m None p (c # cs) = out @ c # sub_loop m None (Some c) cs"
  by (subst sub_loop.simps) (simp add: dec_def)

lemma sub_loop_through:
  assumes H1: "\<And>q k2. k2 \<noteq> [] \<Longrightarrow> suffix k2 k \<Longrightarrow> m q (k2 @ v) = None"
  shows "suffix k2 k \<Longrightarrow> \<exists>q'. sub_loop m None q (k2 @ v) = k2 @ sub_loop m None q' v"
proof (induction k2 arbitrary: q)
  case Nil
  then show ?case by auto
next
  case (Cons c k2)
  have "m q ((c # k2) @ v) = None" using H1 Cons.prems by blast
  then have "sub_loop m None q ((c # k2) @ v) = c # sub_loop m None (Some c) (k2 @ v)"
    by (simp add: sub_loop_no_match)
  moreover have "suffix k2 k" using Cons.prems by (rule suffix_ConsD)
  ultimately show ?case using Cons.IH [of "Some c"] by auto
qed

lemma sub_loop_keeps:
  assumes suf: "\<And>q t out p' t'. m q t = Some (out, p', t') \<Longrightarrow> suffix t' t"
    and H1: "\<And>q k2 v. k2 \<noteq> [] \<Longrightarrow> suffix k2 k \<Longrightarrow> m q (k2 @ v) = None"
    and H2: "\<And>q t out p' t' u v. m q t = Some (out, p', t') \<Longrightarrow> t = u @ k @ v \<Longrightarrow> u \<noteq> []
               \<Longrightarrow> length t' < length (k @ v) \<Longrightarrow> sublist k out"
  shows "sublist k (sub_loop m None p (u @ k @ v))"
proof (induction "length u" arbitrary: u p rule: less_induct)
  case less
  show ?case
  proof (cases u)
    case Nil
    obtain q' where "sub_loop m None p (k @ v) = k @ sub_loop m None q' v"
      using sub_loop_through [of k m v k p] H1 by auto
    then show ?thesis using Nil by simp
  next
    case (Cons c u')
    let ?s = "u @ k @ v"
    have s: "?s = c # (u' @ k @ v)" using Cons by simp
    have rec: "sublist k (sub_loop m None (Some c) (u' @ k @ v))"
      using less.hyps [of u' "Some c"] Cons by simp
    show ?thesis
    proof (cases "m p ?s")
      case None
      then have "sub_loop m None p ?s = c # sub_loop m None (Some c) (u' @ k @ v)"
        by (simp add: sub_loop_no_match s)
      then show ?thesis using rec by (simp add: sublist_Cons_right)
    next
      case (Some x)
      obtain out p' t' where x: "x = (out, p', t')" by (cases x) auto
      have m: "m p ?s = Some (out, p', t')" using Some x by simp
      show ?thesis
      proof (cases "length t' < length ?s")
        case False
        then have "sub_loop m None p ?s = out @ c # sub_loop m None (Some c) (u' @ k @ v)"
          using sub_loop_empty_match [of m p c "u' @ k @ v" out p' t'] m s by simp
        then show ?thesis using rec
          by (metis sublist_Cons_right sublist_append)
      next
        case True
        then have eq: "sub_loop m None p ?s = out @ sub_loop m None p' t'"
          using m by (simp add: sub_loop_match)
        show ?thesis
        proof (cases "length t' < length (k @ v)")
          case True
          have "sublist k out" using H2 [OF m refl _ True] Cons by simp
          then show ?thesis unfolding eq by (metis sublist_append)
        next
          case long: False
          have "suffix t' ?s" using suf [OF m] .
          then obtain M where M: "?s = M @ t'" by (auto simp: suffix_def)
          have "suffix (k @ v) ?s" by (simp add: suffix_def)
          then have "suffix (k @ v) t'"
            using \<open>suffix t' ?s\<close> long by (metis suffix_length_suffix not_less)
          then obtain u2 where u2: "t' = u2 @ k @ v" by (auto simp: suffix_def)
          have "length u2 < length u" using True u2 by simp
          from less.hyps [OF this, of p'] show ?thesis
            unfolding eq u2 by (metis sublist_append)
        qed
      qed
    qed
  qed
qed

lemma re_matcher_mem:
  assumes "re_matcher r repl q t = Some (out, p', t')"
  shows "\<exists>st'. st' \<in> set (run r \<lparr>prev = q, rest = t, caps = []\<rparr>)
     \<and> out = expand repl (caps st') \<and> p' = prev st' \<and> t' = rest st'"
  using assms by (auto simp: re_matcher_def search_def split: list.splits option.splits)

lemma re_matcher_suffix:
  assumes "re_matcher r repl q t = Some (out, p', t')"
  shows "suffix t' t"
proof -
  from re_matcher_mem [OF assms] obtain st' where
    "st' \<in> set (run r \<lparr>prev = q, rest = t, caps = []\<rparr>)" "t' = rest st'" by blast
  then show ?thesis using run_rest_suffix by fastforce
qed

lemma match_consumes:
  assumes "\<not> nullable r" "re_matcher r repl q t = Some (out, p', t')"
  shows "length t' < length t"
proof -
  from re_matcher_mem [OF assms(2)] obtain st' where
    st': "st' \<in> set (run r \<lparr>prev = q, rest = t, caps = []\<rparr>)" "t' = rest st'" by blast
  from run_consumed [OF st'(1)] st'(2) assms(1) obtain M where "t = M @ t'" "M \<noteq> []"
    by auto
  then show ?thesis by simp
qed

lemma patterns_not_nullable:
  "list_all (\<lambda>(r, repl). \<not> nullable r) (gen_rules @ import_rules)"
  by code_simp

lemma no_start_none:
  assumes "no_start r k" "k2 \<noteq> []" "suffix k2 k"
  shows "re_matcher r repl q (k2 @ v) = None"
proof (rule ccontr)
  assume "re_matcher r repl q (k2 @ v) \<noteq> None"
  then obtain out p' t' where "re_matcher r repl q (k2 @ v) = Some (out, p', t')"
    by auto
  from re_matcher_mem [OF this] obtain st' where
    "st' \<in> set (run r \<lparr>prev = q, rest = k2 @ v, caps = []\<rparr>)" by blast
  from run_first_lit [OF this] have "prefix (first_lit r) (k2 @ v)" by simp
  then have "prefix (first_lit r) k2 \<or> prefix k2 (first_lit r)"
    by (auto simp: prefix_append)
  then show False
    using assms by (auto simp: no_start_def list_all_iff in_set_suffixes)
qed

lemma re_sub_keeps:
  assumes "keeps r k i" "sublist k s"
  shows "sublist k (re_sub r repl s)"
proof -
  from assms(2) obtain u v where s: "s = u @ k @ v" by (auto simp: sublist_def)
  have i: "i < length k" "\<not> may r (k ! i)" "\<And>c. c \<in> set (take i k) \<Longrightarrow> \<not> last_may r c"
    and lit: "no_start r k"
    using assms(1) by (auto simp: keeps_def list_all_iff)
  have "sublist k (sub_loop (re_matcher r repl) None None (u @ k @ v))"
  proof (rule sub_loop_keeps)
    fix q t out p' t'
    assume "re_matcher r repl q t = Some (out, p', t')"
    then show "suffix t' t" by (rule re_matcher_suffix)
  next
    fix q k2 v
    assume "k2 \<noteq> []" "suffix k2 k"
    then show "re_matcher r repl q (k2 @ v) = None" by (rule no_start_none [OF lit])
  next
    fix q t out p' t' u v
    assume m: "re_matcher r repl q t = Some (out, p', t')" and t: "t = u @ k @ v"
      and u: "u \<noteq> []" and len: "length t' < length (k @ v)"
    from re_matcher_mem [OF m] obtain st' where
      st': "st' \<in> set (run r \<lparr>prev = q, rest = t, caps = []\<rparr>)" "t' = rest st'" by blast
    from run_consumed [OF st'(1)] st'(2) obtain M where M: "t = M @ t'"
      "\<And>c. c \<in> set M \<Longrightarrow> may r c" "M \<noteq> [] \<Longrightarrow> last_may r (last M)"
      by auto
    have lM: "length M = length u + length (k @ v) - length t'"
      using M(1) t by (metis add_diff_cancel_right' length_append)
    then have gt: "length u < length M" using len by simp
    have nth: "M ! n = t ! n" if "n < length M" for n
      using that M(1) by (simp add: nth_append)
    have tk: "t ! (length u + x) = k ! x" if "x < length k" for x
      using that t by (simp add: nth_append)
    have False
    proof (cases "length u + i < length M")
      case True
      have "M ! (length u + i) = k ! i" using nth [OF True] tk [OF i(1)] by simp
      then have "k ! i \<in> set M" using True by (metis nth_mem)
      then show False using M(2) i(2) by blast
    next
      case False
      define j where "j = length M - length u - 1"
      have j: "j < i" "length u + j = length M - 1" using False gt by (auto simp: j_def)
      have "M \<noteq> []" using gt by auto
      then have "last M = M ! (length M - 1)" by (rule last_conv_nth)
      also have "\<dots> = k ! j" using nth [of "length M - 1"] tk [of j] j i(1) gt by simp
      finally have "last M = take i k ! j" using j(1) by simp
      then have "last M \<in> set (take i k)" using j(1) i(1) by (metis length_take min.absorb2 nth_mem less_imp_le)
      then show False using M(3) [OF \<open>M \<noteq> []\<close>] i(3) by blast
    qed
    then show "sublist k out" ..
  qed
  then show ?thesis by (simp add: re_sub_def s)
qed

lemma cut_at:
  assumes eq: "P @ d # Q = u @ k @ v" and d: "d \<notin> set k" and k: "k \<noteq> []"
  shows "(\<exists>P'. P = u @ k @ P') \<or> (\<exists>u'. u = P @ d # u' \<and> Q = u' @ k @ v)"
proof -
  from eq consider us where "P = u @ us" "us @ d # Q = k @ v"
    | us where "P @ us = u" "d # Q = us @ k @ v"
    by (auto simp: append_eq_append_conv2)
  then show ?thesis
  proof cases
    case 1
    from 1(2) consider ws where "us = k @ ws" | ws where "us @ ws = k" "d # Q = ws @ v"
      by (auto simp: append_eq_append_conv2)
    then show ?thesis
    proof cases
      case 1
      then show ?thesis using \<open>P = u @ us\<close> by auto
    next
      case 2
      show ?thesis
      proof (cases ws)
        case Nil
        then show ?thesis using 2 \<open>P = u @ us\<close> by auto
      next
        case (Cons a list)
        then have "d \<in> set k" using 2 by auto
        then show ?thesis using d by blast
      qed
    qed
  next
    case 2
    show ?thesis
    proof (cases us)
      case Nil
      then have "d \<in> set k" using 2(2) k by (cases k) auto
      then show ?thesis using d by blast
    next
      case (Cons a list)
      then show ?thesis using 2 by auto
    qed
  qed
qed

lemma sublist_after_spaces:
  assumes "k \<noteq> []" "\<not> is_space (hd k)" "\<forall>c\<in>set w. is_space c" "sublist k (w @ g)"
  shows "sublist k g"
  using assms(3,4)
proof (induction w)
  case Nil
  then show ?case by simp
next
  case (Cons c w)
  have "\<not> prefix k (c # w @ g)" using assms(1,2) Cons.prems(1) by (cases k) auto
  then show ?case using Cons by (simp add: sublist_Cons_right)
qed

lemma mem_Lit:
  assumes "st' \<in> set (run (Lit l) st)"
  shows "rest st = l @ rest st' \<and> caps st' = caps st"
proof -
  from assms have l: "prefix l (rest st)" "st' = eat (length l) st"
    by (auto simp: starts_with_prefix split: if_splits)
  then obtain t where "rest st = l @ t" by (auto simp: prefix_def)
  then show ?thesis using l(2) by (simp add: rest_eat caps_eat)
qed

lemma take_within_takeWhile:
  assumes "n \<le> length (takeWhile P xs)"
  shows "\<forall>c\<in>set (take n xs). P c"
proof -
  have "take n xs = take n (takeWhile P xs)"
    using assms by (metis takeWhile_dropWhile_id take_append diff_is_0_eq take_0 append_Nil2)
  then have "set (take n xs) \<subseteq> set (takeWhile P xs)" by (metis set_take_subset)
  then show ?thesis by (auto dest: set_takeWhileD)
qed

lemma mem_Many_shape:
  assumes "st' \<in> set (run (Many k) st)"
  shows "\<exists>w. rest st = w @ rest st' \<and> (\<forall>c\<in>set w. in_cls k c) \<and> caps st' = caps st"
proof -
  from assms obtain n where n: "n \<le> length (takeWhile (in_cls k) (rest st))" "st' = eat n st"
    unfolding mem_Many by blast
  have "rest st = take n (rest st) @ rest st'" using n(2) by (simp add: rest_eat)
  then show ?thesis using take_within_takeWhile [OF n(1)] n(2) by (auto simp: caps_eat)
qed

lemma mem_Grp_Many1:
  assumes "st' \<in> set (run (Grp (Many1 k)) st)"
  shows "\<exists>g. rest st = g @ rest st' \<and> (\<forall>c\<in>set g. in_cls k c) \<and> caps st' = caps st @ [g]"
proof -
  from assms obtain st1 where st1: "st1 \<in> set (run (Many1 k) st)"
    "st' = st1\<lparr>caps := caps st1 @ [take (length (rest st) - length (rest st1)) (rest st)]\<rparr>"
    by (auto simp del: run.simps(3))
  from st1(1) obtain n where n: "n \<le> length (takeWhile (in_cls k) (rest st))" "st1 = eat n st"
    unfolding mem_Many1 by blast
  have "n \<le> length (rest st)"
    using n(1) by (meson length_takeWhile_le order_trans)
  then have "length (rest st) - length (rest st1) = n" using n(2) by (simp add: rest_eat)
  then have c: "caps st' = caps st @ [take n (rest st)]" "rest st' = drop n (rest st)"
    using st1(2) n(2) by (simp_all add: rest_eat caps_eat)
  have "rest st = take n (rest st) @ rest st'" using c(2) by simp
  then show ?thesis using take_within_takeWhile [OF n(1)] c(1) by blast
qed

lemma alloc_rule_shape:
  assumes "re_matcher (cat [Lit ''pool.alloc_expr('', Grp (Many1 (NoneOf '','')), Lit '','',
               Many Space, Grp (Many1 (NoneOf '')'')), Lit '')?''])
             [Txt ''Expr::new('', Ref 1, Txt '', '', Ref 2, Txt '')''] q t = Some (out, p', t')"
  shows "\<exists>g1 w g2. t = ''pool.alloc_expr('' @ g1 @ '','' @ w @ g2 @ '')?'' @ t'
     \<and> (\<forall>c\<in>set w. is_space c) \<and> out = ''Expr::new('' @ g1 @ '', '' @ g2 @ '')''"
proof -
  let ?st = "\<lparr>prev = q, rest = t, caps = []\<rparr>"
  from re_matcher_mem [OF assms] obtain st' where st':
    "st' \<in> set (run (cat [Lit ''pool.alloc_expr('', Grp (Many1 (NoneOf '','')), Lit '','',
               Many Space, Grp (Many1 (NoneOf '')'')), Lit '')?'']) ?st)"
    "out = expand [Txt ''Expr::new('', Ref 1, Txt '', '', Ref 2, Txt '')''] (caps st')"
    "t' = rest st'"
    by blast
  from st'(1) obtain s1 s2 s3 s4 s5 where
    s1: "s1 \<in> set (run (Lit ''pool.alloc_expr('') ?st)" and
    s2: "s2 \<in> set (run (Grp (Many1 (NoneOf '',''))) s1)" and
    s3: "s3 \<in> set (run (Lit '','') s2)" and
    s4: "s4 \<in> set (run (Many Space) s3)" and
    s5: "s5 \<in> set (run (Grp (Many1 (NoneOf '')''))) s4)" and
    s6: "st' \<in> set (run (Lit '')?'') s5)"
    unfolding cat.simps run_Seq_mem by blast
  from mem_Lit [OF s1] have 1: "t = ''pool.alloc_expr('' @ rest s1" "caps s1 = []" by simp_all
  from mem_Grp_Many1 [OF s2] obtain g1 where 2: "rest s1 = g1 @ rest s2" "caps s2 = [g1]"
    using 1(2) by auto
  from mem_Lit [OF s3] have 3: "rest s2 = '','' @ rest s3" "caps s3 = [g1]" using 2(2) by simp_all
  from mem_Many_shape [OF s4] obtain w where 4: "rest s3 = w @ rest s4" "\<forall>c\<in>set w. is_space c"
    "caps s4 = [g1]" using 3(2) by auto
  from mem_Grp_Many1 [OF s5] obtain g2 where 5: "rest s4 = g2 @ rest s5" "caps s5 = [g1, g2]"
    using 4(3) by auto
  from mem_Lit [OF s6] have 6: "rest s5 = '')?'' @ t'" "caps st' = [g1, g2]"
    using 5(2) st'(3) by simp_all
  have "t = ''pool.alloc_expr('' @ g1 @ '','' @ w @ g2 @ '')?'' @ t'"
    by (simp only: 1(1) 2(1) 3(1) 4(1) 5(1) 6(1))
  moreover have "out = ''Expr::new('' @ g1 @ '', '' @ g2 @ '')''"
    by (simp add: st'(2) 6(2))
  ultimately show ?thesis using 4(2) by blast
qed

lemma alloc_rule_keeps:
  assumes "sublist ''use lp_pool::LpBox;'' s"
  shows "sublist ''use lp_pool::LpBox;''
     (re_sub (cat [Lit ''pool.alloc_expr('', Grp (Many1 (NoneOf '','')), Lit '','',
               Many Space, Grp (Many1 (NoneOf '')'')), Lit '')?''])
        [Txt ''Expr::new('', Ref 1, Txt '', '', Ref 2, Txt '')''] s)"
proof -
  let ?k = "''use lp_pool::LpBox;''"
  let ?r = "cat [Lit ''pool.alloc_expr('', Grp (Many1 (NoneOf '','')), Lit '','',
               Many Space, Grp (Many1 (NoneOf '')'')), Lit '')?'']"
  let ?repl = "[Txt ''Expr::new('', Ref 1, Txt '', '', Ref 2, Txt '')'']"
  from assms obtain u v where s: "s = u @ ?k @ v" by (auto simp: sublist_def)
  have ns: "no_start ?r ?k" by code_simp
  have "sublist ?k (sub_loop (re_matcher ?r ?repl) None None (u @ ?k @ v))"
  proof (rule sub_loop_keeps)
    fix q t out p' t'
    assume "re_matcher ?r ?repl q t = Some (out, p', t')"
    then show "suffix t' t" by (rule re_matcher_suffix)
  next
    fix q k2 v
    assume "k2 \<noteq> []" "suffix k2 ?k"
    then show "re_matcher ?r ?repl q (k2 @ v) = None" by (rule no_start_none [OF ns])
  next
    fix q t out p' t' u v
    assume m: "re_matcher ?r ?repl q t = Some (out, p', t')" and t: "t = u @ ?k @ v"
      and u: "u \<noteq> []" and len: "length t' < length (?k @ v)"
    from alloc_rule_shape [OF m] obtain g1 w g2 where
      sh: "t = ''pool.alloc_expr('' @ g1 @ '','' @ w @ g2 @ '')?'' @ t'"
      "\<forall>c\<in>set w. is_space c" "out = ''Expr::new('' @ g1 @ '', '' @ g2 @ '')''"
      by blast
    have "(''pool.alloc_expr('' @ g1) @ CHR '','' # (w @ g2 @ '')?'' @ t') = u @ ?k @ v"
      using sh(1) t by simp
    from cut_at [OF this] consider P' where "''pool.alloc_expr('' @ g1 = u @ ?k @ P'"
      | u' where "u = (''pool.alloc_expr('' @ g1) @ CHR '','' # u'"
        "w @ g2 @ '')?'' @ t' = u' @ ?k @ v"
      by auto
    then have "sublist ?k g1 \<or> sublist ?k g2"
    proof cases
      case 1
      then have "''pool.alloc_expr'' @ CHR ''('' # g1 = u @ ?k @ P'" by simp
      from cut_at [OF this] consider P2 where "''pool.alloc_expr'' = u @ ?k @ P2"
        | u2 where "g1 = u2 @ ?k @ P'"
        by auto
      then show ?thesis
      proof cases
        case 1
        then have "length (''pool.alloc_expr''::string) = length (u @ ?k @ P2)" by simp
        then show ?thesis by simp
      next
        case 2
        then show ?thesis by (auto simp: sublist_def)
      qed
    next
      case 2
      then have "(w @ g2) @ CHR '')'' # (''?'' @ t') = u' @ ?k @ v" by simp
      from cut_at [OF this] consider P3 where "w @ g2 = u' @ ?k @ P3"
        | u3 where "u' = (w @ g2) @ CHR '')'' # u3" "''?'' @ t' = u3 @ ?k @ v"
        by auto
      then show ?thesis
      proof cases
        case 1
        then have "sublist ?k (w @ g2)" by (auto simp: sublist_def)
        then have "sublist ?k g2"
          using sh(2) by (intro sublist_after_spaces [of ?k w g2]) (simp_all add: is_space_def between_def)
        then show ?thesis ..
      next
        case 2
        have "Suc (length t') = length u3 + length (?k @ v)"
          using arg_cong [OF 2(2), of length] by simp
        then have "u3 = []" using len by simp
        then show ?thesis using 2(2) by simp
      qed
    qed
    then show "sublist ?k out"
      unfolding sh(3) by (metis sublist_append)
  qed
  then show ?thesis by (simp add: re_sub_def s)
qed

lemma replace_types_keeps:
  "sublist ''use lp_pool::LpBox;'' s \<Longrightarrow> sublist ''use lp_pool::LpBox;'' (replace_types s)"
proof -
  have 1: "keeps (cat [WordB, Lit ''ExprId'', WordB]) ''use lp_pool::LpBox;'' 0" by code_simp
  have 2: "keeps (cat [WordB, Lit ''StmtId'', WordB]) ''use lp_pool::LpBox;'' 0" by code_simp
  show "sublist ''use lp_pool::LpBox;'' s \<Longrightarrow> sublist ''use lp_pool::LpBox;'' (replace_types s)"
    unfolding replace_types_def Let_def
    by (intro re_sub_keeps [OF 2] re_sub_keeps [OF 1])
qed

lemma replace_box_keeps:
  "sublist ''use lp_pool::LpBox;'' s \<Longrightarrow> sublist ''use lp_pool::LpBox;'' (replace_box s)"
proof -
  have 1: "keeps (Lit ''Box<Expr>'') ''use lp_pool::LpBox;'' 0" by code_simp
  have 2: "keeps (Lit ''Box<Stmt>'') ''use lp_pool::LpBox;'' 0" by code_simp
  have 3: "keeps (Lit ''Box::new('') ''use lp_pool::LpBox;'' 0" by code_simp
  show "sublist ''use lp_pool::LpBox;'' s \<Longrightarrow> sublist ''use lp_pool::LpBox;'' (replace_box s)"
    unfolding replace_box_def Let_def
    by (intro re_sub_keeps [OF 3] re_sub_keeps [OF 2] re_sub_keeps [OF 1])
qed

lemma remove_pool_params_keeps:
  "sublist ''use lp_pool::LpBox;'' s \<Longrightarrow> sublist ''use lp_pool::LpBox;'' (remove_pool_params s)"
proof -
  have 1: "keeps (cat [Lit '','', Many Space, Opt (Grp (cat [Lit ''mut'', Many1 Space])),
                                 Lit ''pool:'', Many Space, Lit ''AstPool'']) ''use lp_pool::LpBox;'' 2"
    by code_simp
  have 2: "keeps (cat [Lit ''(pool:'', Many Space, Lit ''AstPool,'']) ''use lp_pool::LpBox;'' 0"
    by code_simp
  have 3: "keeps (cat [Lit ''(pool:'', Many Space, Lit ''AstPool)'']) ''use lp_pool::LpBox;'' 0"
    by code_simp
  have 4: "keeps (cat [Lit ''->'', Many Space, Lit ''(Expr,'', Many Space, Lit ''AstPool)''])
      ''use lp_pool::LpBox;'' 0"
    by code_simp
  have 5: "keeps (cat [Lit ''->'', Many Space, Lit ''(Stmt,'', Many Space, Lit ''AstPool)''])
      ''use lp_pool::LpBox;'' 0"
    by code_simp
  show "sublist ''use lp_pool::LpBox;'' s \<Longrightarrow> sublist ''use lp_pool::LpBox;'' (remove_pool_params s)"
    unfolding remove_pool_params_def Let_def
    by (intro re_sub_keeps [OF 5] re_sub_keeps [OF 4] re_sub_keeps [OF 3] re_sub_keeps [OF 2]
        re_sub_keeps [OF 1])
qed

lemma remove_pool_calls_keeps:
  "sublist ''use lp_pool::LpBox;'' s \<Longrightarrow> sublist ''use lp_pool::LpBox;'' (remove_pool_calls s)"
proof -
  have 1: "keeps (cat [Lit ''pool.expr('', Grp (Many1 Word), Lit '')'']) ''use lp_pool::LpBox;'' 3"
    by code_simp
  have 2: "keeps (cat [Lit ''pool.expr_mut('', Grp (Many1 Word), Lit '')'']) ''use lp_pool::LpBox;'' 3"
    by code_simp
  have 3: "keeps (cat [Lit ''pool.stmt('', Grp (Many1 Word), Lit '')'']) ''use lp_pool::LpBox;'' 3"
    by code_simp
  show "sublist ''use lp_pool::LpBox;'' s \<Longrightarrow> sublist ''use lp_pool::LpBox;'' (remove_pool_calls s)"
    unfolding remove_pool_calls_def Let_def
    by (intro alloc_rule_keeps re_sub_keeps [OF 3] re_sub_keeps [OF 2] re_sub_keeps [OF 1])
qed

lemma rewrite_rules_keep_statement:
  "contains ''use lp_pool::LpBox;'' s \<Longrightarrow> contains ''use lp_pool::LpBox'' (rewrite_rules s)"
proof -
  assume "contains ''use lp_pool::LpBox;'' s"
  then have "sublist ''use lp_pool::LpBox;'' (rewrite_rules s)"
    unfolding rewrite_rules_def contains_sublist
    by (intro remove_pool_calls_keeps remove_pool_params_keeps replace_box_keeps replace_types_keeps)
  then show ?thesis
    unfolding contains_sublist using import_in_statement sublist_trans by blast
qed

section \<open>Evaluation of the passes on the literal scenarios\<close>

text \<open>
  C1.  Every Pass is idempotent.  Pass 1 is not: its rule for \<^verbatim>\<open>Box<Expr>\<close> has no word
  boundary, so it matches again inside the \<^verbatim>\<open>LpBox<Expr>\<close> that the first run produced, and
  the second run changes the text once more.
\<close>

theorem pass1_second_run_changes_lpbox:
  "process_content ''Box<Expr>'' = ''LpBox<Expr>''
   \<and> process_content (process_content ''Box<Expr>'') = ''LpLpBox<Expr>''"
  by code_simp

text \<open>
  C2.  Pass 1 turns \<^verbatim>\<open>fn f(mut pool: AstPool, x: ExprId) -> ExprId\<close> into
  \<^verbatim>\<open>fn f(x: Expr) -> Expr\<close>.  The code renames the types and keeps the leading
  \<^verbatim>\<open>mut pool: AstPool\<close>: the rule with the optional \<^verbatim>\<open>mut\<close> needs a comma before the
  parameter, and the rule for a leading parameter has no \<^verbatim>\<open>mut\<close>.
\<close>

theorem pass1_keeps_leading_mut_pool:
  "process_content ''fn f(mut pool: AstPool, x: ExprId) -> ExprId''
     = ''fn f(mut pool: AstPool, x: Expr) -> Expr''"
  by code_simp

text \<open>
  C3.  Pass 2 rewrites the signature of \<^verbatim>\<open>gen_add_id\<close> and the call
  \<^verbatim>\<open>self.gen_expr_id(pool, left)\<close>.  The signature comes out as claimed; the call keeps its
  \<^verbatim>\<open>pool\<close> argument, because the rule that drops the \<^verbatim>\<open>_id\<close> suffix runs first and the
  call-site rule then no longer finds \<^verbatim>\<open>gen_expr_id\<close>.
\<close>

theorem pass2_call_site_keeps_pool:
  "fix_gen_file ''fn gen_add_id(&mut self, pool: &AstPool, left: ExprId, right: ExprId)''
     = (True, ''fn gen_add(&mut self, left: &Expr, right: &Expr)'')
   \<and> fix_gen_file ''self.gen_expr_id(pool, left)'' = (True, ''self.gen_expr(pool, left)'')"
  by code_simp

text \<open>
  C6.  The import \<^verbatim>\<open>use alloc::boxed::Box;\<close> is deleted exactly when no use of \<^verbatim>\<open>Box\<close>
  remains, \<^verbatim>\<open>LpBox\<close> not counting as one.  The code tests for the substrings \<^verbatim>\<open>Box<\<close> and
  \<^verbatim>\<open>Box::\<close>, which \<^verbatim>\<open>LpBox<Expr>\<close> contains, and keeps the import of a file whose only
  \<^verbatim>\<open>Box\<close> was rewritten.
\<close>

theorem box_import_kept_beside_lpbox:
  "process_content (''use alloc::boxed::Box;'' @ newline @ ''fn f(x: Box<Expr>) {}'' @ newline)
     = ''use alloc::boxed::Box;'' @ newline @ ''fn f(x: LpBox<Expr>) {}'' @ newline"
  by code_simp

text \<open>
  C7.  Pass 3 leaves every line that is not an import statement unchanged.  The code
  rewrites \<^verbatim>\<open>ExprId\<close> in any line that goes on with a comma, a closing brace or a semicolon
  at its end, such as a \<^verbatim>\<open>let\<close> statement.
\<close>

theorem pass3_rewrites_let_statement:
  "fix_imports ''let x: ExprId = 1;'' = (True, ''let x: Expr = 1;'')"
  by code_simp

text \<open>
  C9.  Every renaming rule of Pass 1 matches whole identifiers only.  The rules for
  \<^verbatim>\<open>ExprId\<close> and \<^verbatim>\<open>StmtId\<close> do; the three rules for \<^verbatim>\<open>Box\<close> have no word boundary and
  rewrite the end of a longer identifier.
\<close>

theorem box_rules_match_inside_identifiers:
  "replace_types ''SubExprIdExtra'' = ''SubExprIdExtra''
   \<and> replace_box ''MyBox::new(x)'' = ''MyLpBox::try_new(x)''
   \<and> replace_box ''LpBox<Expr>'' = ''LpLpBox<Expr>''"
  by code_simp

section \<open>The entry points\<close>

subsection \<open>Reading, writing and the loop over the files\<close>

lemma bytes_mtime_print: "bytes_mtime (print m w) q = bytes_mtime w q"
  by (simp add: bytes_mtime_def print_def)

lemma stdout_print: "stdout (print m w) = stdout w @ [m]"
  by (simp add: print_def)

lemma read_file_bytes_mtime: "bytes_mtime (snd (read_file cd p w)) q = bytes_mtime w q"
  by (auto simp: read_file_def bytes_mtime_def Let_def update_conv' split: option.splits)

lemma read_file_stdout: "stdout (snd (read_file cd p w)) = stdout w"
  by (auto simp: read_file_def Let_def split: option.splits)

lemma write_file_bytes_mtime:
  "q \<noteq> p \<Longrightarrow> bytes_mtime (snd (write_file cd p t w)) q = bytes_mtime w q"
  by (auto simp: write_file_def bytes_mtime_def Let_def update_conv' split: option.splits)

lemma write_file_stdout: "stdout (snd (write_file cd p t w)) = stdout w"
  by (auto simp: write_file_def Let_def split: option.splits)

lemma read_file_result:
  "bytes_mtime w p = Some (bytes, m) \<Longrightarrow> decode cd bytes = Some raw
    \<Longrightarrow> fst (read_file cd p w) = Inr (universal_newlines raw)"
  by (auto simp: read_file_def bytes_mtime_def Let_def split: option.splits)

lemma for_each_invariant:
  assumes "\<And>q w. I w \<Longrightarrow> I (snd (body q w))"
  shows "I w \<Longrightarrow> I (snd (for_each body ps n w))"
proof (induction ps arbitrary: n w)
  case Nil
  then show ?case by simp
next
  case (Cons p ps)
  from assms [OF Cons.prems, of p] show ?case
    by (cases "body p w") (auto split: sum.splits intro: Cons.IH)
qed



lemma process_file_keeps:
  assumes dec: "decode cd bytes = Some raw"
    and unch: "process_content (universal_newlines raw) = universal_newlines raw"
    and inv: "bytes_mtime w p = Some (bytes, m)"
  shows "bytes_mtime (snd (process_file cd q w)) p = Some (bytes, m)"
proof -
  let ?w0 = "print (Processing q) w"
  obtain r w1 where rd: "read_file cd q ?w0 = (r, w1)"
    by (cases "read_file cd q ?w0")
  have w1: "bytes_mtime w1 p = Some (bytes, m)"
    using read_file_bytes_mtime [of cd q ?w0 p] rd inv by (simp add: bytes_mtime_print)
  show ?thesis
  proof (cases r)
    case (Inl e)
    then show ?thesis using rd w1 by (simp add: process_file_def)
  next
    case (Inr original)
    show ?thesis
    proof (cases "q = p")
      case True
      have "fst (read_file cd p ?w0) = Inr (universal_newlines raw)"
        using inv dec by (intro read_file_result) (simp_all add: bytes_mtime_print)
      then have "original = universal_newlines raw"
        using rd Inr True by simp
      then show ?thesis
        using rd Inr w1 unch by (simp add: process_file_def)
    next
      case False
      obtain x w2 where wr: "write_file cd q (process_content original) w1 = (x, w2)"
        by (cases "write_file cd q (process_content original) w1")
      have "bytes_mtime w2 p = Some (bytes, m)"
        using write_file_bytes_mtime [of p q cd "process_content original" w1] wr w1 False
        by simp
      then show ?thesis
        using rd Inr w1 wr by (cases x) (simp_all add: process_file_def Let_def)
    qed
  qed
qed

lemma process_file_unchanged:
  assumes dec: "decode cd bytes = Some raw"
    and unch: "process_content (universal_newlines raw) = universal_newlines raw"
    and inv: "bytes_mtime w p = Some (bytes, m)"
  shows "fst (process_file cd p w) = Inr False"
    and "bytes_mtime (snd (process_file cd p w)) q = bytes_mtime w q"
    and "snd (process_file cd p w) = snd (read_file cd p (print (Processing p) w))"
proof -
  let ?w0 = "print (Processing p) w"
  obtain r w1 where rd: "read_file cd p ?w0 = (r, w1)"
    by (cases "read_file cd p ?w0")
  have w1: "bytes_mtime w1 q = bytes_mtime w q"
    using read_file_bytes_mtime [of cd p ?w0 q] rd by (simp add: bytes_mtime_print)
  have "fst (read_file cd p ?w0) = Inr (universal_newlines raw)"
    using inv dec by (intro read_file_result) (simp_all add: bytes_mtime_print)
  then have r: "r = Inr (universal_newlines raw)"
    using rd by simp
  show "fst (process_file cd p w) = Inr False"
    using rd r unch by (simp add: process_file_def)
  show "bytes_mtime (snd (process_file cd p w)) q = bytes_mtime w q"
    using rd r unch w1 by (simp add: process_file_def)
  show "snd (process_file cd p w) = snd (read_file cd p (print (Processing p) w))"
    using rd r unch by (simp add: process_file_def)
qed

lemma main_keeps:
  assumes dec: "decode cd bytes = Some raw"
    and unch: "process_content (universal_newlines raw) = universal_newlines raw"
    and inv: "bytes_mtime w p = Some (bytes, m)"
  shows "bytes_mtime (snd (main cd sd w)) p = Some (bytes, m)"
proof -
  let ?I = "\<lambda>w. bytes_mtime w p = Some (bytes, m)"
  let ?root = "lpscript_dir sd"
  let ?w = "print (Running ?root) w"
  have "?I (snd (for_each (process_file cd) (glob ?root ''.rs'' ?w) 0 ?w))"
    by (rule for_each_invariant [where I = ?I])
      (simp_all add: process_file_keeps [OF dec unch] bytes_mtime_print inv)
  then show ?thesis
    using inv
    by (cases "for_each (process_file cd) (glob ?root ''.rs'' ?w) 0 ?w")
      (auto simp: main_def Let_def bytes_mtime_print split: sum.splits)
qed


lemma fix_gen_step_keeps:
  assumes dec: "decode cd bytes = Some raw"
    and unch: "\<not> fst (fix_gen_file (universal_newlines raw))"
    and inv: "bytes_mtime w p = Some (bytes, m) \<and> (Fixed p \<in> set (stdout w) \<longrightarrow> P)"
  shows "bytes_mtime (snd (fix_gen_step cd q w)) p = Some (bytes, m)
    \<and> (Fixed p \<in> set (stdout (snd (fix_gen_step cd q w))) \<longrightarrow> P)"
proof -
  obtain r w1 where rd: "read_file cd q w = (r, w1)"
    by (cases "read_file cd q w")
  have w1: "bytes_mtime w1 p = Some (bytes, m)" "stdout w1 = stdout w"
    using read_file_bytes_mtime [of cd q w p] read_file_stdout [of cd q w] rd inv by simp_all
  show ?thesis
  proof (cases r)
    case (Inl e)
    then show ?thesis using rd w1 inv by (simp add: fix_gen_step_def)
  next
    case (Inr content)
    obtain changed new_content where fx: "fix_gen_file content = (changed, new_content)"
      by (cases "fix_gen_file content")
    show ?thesis
    proof (cases "q = p")
      case True
      have "fst (read_file cd p w) = Inr (universal_newlines raw)"
        using inv dec by (intro read_file_result) simp_all
      then have "content = universal_newlines raw"
        using rd Inr True by simp
      then have "\<not> changed"
        using unch fx by simp
      then show ?thesis
        using rd Inr w1 fx inv by (simp add: fix_gen_step_def)
    next
      case False
      obtain x w2 where wr: "write_file cd q new_content w1 = (x, w2)"
        by (cases "write_file cd q new_content w1")
      have "bytes_mtime w2 p = Some (bytes, m)" "stdout w2 = stdout w"
        using write_file_bytes_mtime [of p q cd new_content w1]
          write_file_stdout [of cd q new_content w1] wr w1 False
        by simp_all
      then show ?thesis
        using rd Inr w1 wr fx inv False
        by (cases x) (simp_all add: fix_gen_step_def bytes_mtime_print stdout_print)
    qed
  qed
qed

lemma fix_gen_step_unchanged:
  assumes dec: "decode cd bytes = Some raw"
    and unch: "\<not> fst (fix_gen_file (universal_newlines raw))"
    and inv: "bytes_mtime w p = Some (bytes, m)"
  shows "fst (fix_gen_step cd p w) = Inr False"
    and "bytes_mtime (snd (fix_gen_step cd p w)) q = bytes_mtime w q"
    and "stdout (snd (fix_gen_step cd p w)) = stdout w"
    and "snd (fix_gen_step cd p w) = snd (read_file cd p w)"
proof -
  obtain r w1 where rd: "read_file cd p w = (r, w1)"
    by (cases "read_file cd p w")
  have w1: "bytes_mtime w1 q = bytes_mtime w q" "stdout w1 = stdout w"
    using read_file_bytes_mtime [of cd p w q] read_file_stdout [of cd p w] rd by simp_all
  have "fst (read_file cd p w) = Inr (universal_newlines raw)"
    using inv dec by (intro read_file_result) simp_all
  then have r: "r = Inr (universal_newlines raw)"
    using rd by simp
  obtain new_content where fx: "fix_gen_file (universal_newlines raw) = (False, new_content)"
    using unch by (cases "fix_gen_file (universal_newlines raw)") simp
  show "fst (fix_gen_step cd p w) = Inr False"
    using rd r fx by (simp add: fix_gen_step_def)
  show "bytes_mtime (snd (fix_gen_step cd p w)) q = bytes_mtime w q"
    using rd r fx w1 by (simp add: fix_gen_step_def)
  show "stdout (snd (fix_gen_step cd p w)) = stdout w"
    using rd r fx w1 by (simp add: fix_gen_step_def)
  show "snd (fix_gen_step cd p w) = snd (read_file cd p w)"
    using rd r fx by (simp add: fix_gen_step_def)
qed

lemma fix_imports_process_file_keeps:
  assumes dec: "decode cd bytes = Some raw"
    and unch: "\<not> fst (fix_imports (universal_newlines raw))"
    and inv: "bytes_mtime w p = Some (bytes, m) \<and> (Fixed p \<in> set (stdout w) \<longrightarrow> P)"
  shows "bytes_mtime (snd (fix_imports_process_file cd q w)) p = Some (bytes, m)
    \<and> (Fixed p \<in> set (stdout (snd (fix_imports_process_file cd q w))) \<longrightarrow> P)"
proof -
  obtain r w1 where rd: "read_file cd q w = (r, w1)"
    by (cases "read_file cd q w")
  have w1: "bytes_mtime w1 p = Some (bytes, m)" "stdout w1 = stdout w"
    using read_file_bytes_mtime [of cd q w p] read_file_stdout [of cd q w] rd inv by simp_all
  show ?thesis
  proof (cases r)
    case (Inl e)
    then show ?thesis using rd w1 inv by (simp add: fix_imports_process_file_def)
  next
    case (Inr content)
    obtain changed new_content where fx: "fix_imports content = (changed, new_content)"
      by (cases "fix_imports content")
    show ?thesis
    proof (cases "q = p")
      case True
      have "fst (read_file cd p w) = Inr (universal_newlines raw)"
        using inv dec by (intro read_file_result) simp_all
      then have "content = universal_newlines raw"
        using rd Inr True by simp
      then have "\<not> changed"
        using unch fx by simp
      then show ?thesis
        using rd Inr w1 fx inv by (simp add: fix_imports_process_file_def)
    next
      case False
      obtain x w2 where wr: "write_file cd q new_content w1 = (x, w2)"
        by (cases "write_file cd q new_content w1")
      have "bytes_mtime w2 p = Some (bytes, m)" "stdout w2 = stdout w"
        using write_file_bytes_mtime [of p q cd new_content w1]
          write_file_stdout [of cd q new_content w1] wr w1 False
        by simp_all
      then show ?thesis
        using rd Inr w1 wr fx inv False
        by (cases x) (simp_all add: fix_imports_process_file_def bytes_mtime_print stdout_print)
    qed
  qed
qed

lemma fix_imports_process_file_unchanged:
  assumes dec: "decode cd bytes = Some raw"
    and unch: "\<not> fst (fix_imports (universal_newlines raw))"
    and inv: "bytes_mtime w p = Some (bytes, m)"
  shows "fst (fix_imports_process_file cd p w) = Inr False"
    and "bytes_mtime (snd (fix_imports_process_file cd p w)) q = bytes_mtime w q"
    and "stdout (snd (fix_imports_process_file cd p w)) = stdout w"
    and "snd (fix_imports_process_file cd p w) = snd (read_file cd p w)"
proof -
  obtain r w1 where rd: "read_file cd p w = (r, w1)"
    by (cases "read_file cd p w")
  have w1: "bytes_mtime w1 q = bytes_mtime w q" "stdout w1 = stdout w"
    using read_file_bytes_mtime [of cd p w q] read_file_stdout [of cd p w] rd by simp_all
  have "fst (read_file cd p w) = Inr (universal_newlines raw)"
    using inv dec by (intro read_file_result) simp_all
  then have r: "r = Inr (universal_newlines raw)"
    using rd by simp
  obtain new_content where fx: "fix_imports (universal_newlines raw) = (False, new_content)"
    using unch by (cases "fix_imports (universal_newlines raw)") simp
  show "fst (fix_imports_process_file cd p w) = Inr False"
    using rd r fx by (simp add: fix_imports_process_file_def)
  show "bytes_mtime (snd (fix_imports_process_file cd p w)) q = bytes_mtime w q"
    using rd r fx w1 by (simp add: fix_imports_process_file_def)
  show "stdout (snd (fix_imports_process_file cd p w)) = stdout w"
    using rd r fx w1 by (simp add: fix_imports_process_file_def)
  show "snd (fix_imports_process_file cd p w) = snd (read_file cd p w)"
    using rd r fx by (simp add: fix_imports_process_file_def)
qed

lemma fix_gen_main_keeps:
  assumes dec: "decode cd bytes = Some raw"
    and unch: "\<not> fst (fix_gen_file (universal_newlines raw))"
    and inv: "bytes_mtime w p = Some (bytes, m) \<and> (Fixed p \<in> set (stdout w) \<longrightarrow> P)"
  shows "bytes_mtime (snd (fix_gen_main cd sd w)) p = Some (bytes, m)
    \<and> (Fixed p \<in> set (stdout (snd (fix_gen_main cd sd w))) \<longrightarrow> P)"
proof -
  let ?I = "\<lambda>w. bytes_mtime w p = Some (bytes, m) \<and> (Fixed p \<in> set (stdout w) \<longrightarrow> P)"
  let ?root = "lpscript_dir sd"
  have step: "\<And>q w. ?I w \<Longrightarrow> ?I (snd (fix_gen_step cd q w))"
    by (rule fix_gen_step_keeps [OF dec unch])
  obtain r1 w1 where l1: "for_each (fix_gen_step cd) (glob ?root ''_gen.rs'' w) 0 w = (r1, w1)"
    by (cases "for_each (fix_gen_step cd) (glob ?root ''_gen.rs'' w) 0 w")
  have "?I (snd (for_each (fix_gen_step cd) (glob ?root ''_gen.rs'' w) 0 w))"
    by (rule for_each_invariant [where I = ?I]) (erule step, rule inv)
  then have i1: "?I w1"
    using l1 by simp
  show ?thesis
  proof (cases r1)
    case (Inl e)
    then show ?thesis using l1 i1 by (simp add: fix_gen_main_def)
  next
    case (Inr fixed1)
    obtain r2 w2 where l2:
      "for_each (fix_gen_step cd) (glob ?root ''_types.rs'' w1) fixed1 w1 = (r2, w2)"
      by (cases "for_each (fix_gen_step cd) (glob ?root ''_types.rs'' w1) fixed1 w1")
    have "?I (snd (for_each (fix_gen_step cd) (glob ?root ''_types.rs'' w1) fixed1 w1))"
      by (rule for_each_invariant [where I = ?I]) (erule step, rule i1)
    then have "?I w2"
      using l2 by simp
    then show ?thesis
      using l1 Inr l2 by (cases r2) (simp_all add: fix_gen_main_def bytes_mtime_print stdout_print)
  qed
qed

lemma fix_imports_main_keeps:
  assumes dec: "decode cd bytes = Some raw"
    and unch: "\<not> fst (fix_imports (universal_newlines raw))"
    and inv: "bytes_mtime w p = Some (bytes, m) \<and> (Fixed p \<in> set (stdout w) \<longrightarrow> P)"
  shows "bytes_mtime (snd (fix_imports_main cd sd w)) p = Some (bytes, m)
    \<and> (Fixed p \<in> set (stdout (snd (fix_imports_main cd sd w))) \<longrightarrow> P)"
proof -
  let ?I = "\<lambda>w. bytes_mtime w p = Some (bytes, m) \<and> (Fixed p \<in> set (stdout w) \<longrightarrow> P)"
  let ?root = "lpscript_dir sd"
  have step: "\<And>q w. ?I w \<Longrightarrow> ?I (snd (fix_imports_process_file cd q w))"
    by (rule fix_imports_process_file_keeps [OF dec unch])
  obtain r1 w1 where l1:
    "for_each (fix_imports_process_file cd) (glob ?root ''.rs'' w) 0 w = (r1, w1)"
    by (cases "for_each (fix_imports_process_file cd) (glob ?root ''.rs'' w) 0 w")
  have "?I (snd (for_each (fix_imports_process_file cd) (glob ?root ''.rs'' w) 0 w))"
    by (rule for_each_invariant [where I = ?I]) (erule step, rule inv)
  then have "?I w1"
    using l1 by simp
  then show ?thesis
    using l1 by (cases r1) (simp_all add: fix_imports_main_def bytes_mtime_print stdout_print)
qed

subsection \<open>A root directory that does not exist\<close>

text \<open>
  C4.  Only Pass 1 looks for its root directory.  When the root does not exist, Pass 1 prints
  \<^verbatim>\<open>Error: ... not found\<close> and exits with status 1, whereas Pass 2 and Pass 3 search the
  missing root, find no file, print \<^verbatim>\<open>Fixed 0 files\<close> and end with status 0: they give no
  diagnostic and no failure status.  None of the three touches a file.
\<close>

theorem missing_root_not_detected:
  "\<not> path_exists (lpscript_dir script_dir) w \<Longrightarrow>
     fix_gen_main cd script_dir w = (None, print (FixedCount 0) w)
   \<and> exit_status (fst (fix_gen_main cd script_dir w)) = 0
   \<and> fix_imports_main cd script_dir w = (None, print (FixedCount 0) w)
   \<and> exit_status (fst (fix_imports_main cd script_dir w)) = 0
   \<and> main cd script_dir w = (Some (SystemExit 1), print (NotFound (lpscript_dir script_dir)) w)
   \<and> exit_status (fst (main cd script_dir w)) = 1"
  by (simp add: path_exists_def glob_def fix_gen_main_def fix_imports_main_def main_def
      exit_status_def)

theorem missing_root_not_detected_witness:
  "\<not> path_exists (lpscript_dir [''repo'', ''scripts'']) tree_without_root
   \<and> fix_gen_main latin1 [''repo'', ''scripts''] tree_without_root
       = (None, print (FixedCount 0) tree_without_root)
   \<and> exit_status (fst (fix_gen_main latin1 [''repo'', ''scripts''] tree_without_root)) = 0
   \<and> fix_imports_main latin1 [''repo'', ''scripts''] tree_without_root
       = (None, print (FixedCount 0) tree_without_root)
   \<and> exit_status (fst (fix_imports_main latin1 [''repo'', ''scripts''] tree_without_root)) = 0
   \<and> main latin1 [''repo'', ''scripts''] tree_without_root
       = (Some (SystemExit 1),
          print (NotFound [''repo'', ''crates'', ''lp-script'', ''src'']) tree_without_root)
   \<and> exit_status (fst (main latin1 [''repo'', ''scripts''] tree_without_root)) = 1"
proof -
  have h: "\<not> path_exists (lpscript_dir [''repo'', ''scripts'']) tree_without_root"
    by code_simp
  have r: "lpscript_dir [''repo'', ''scripts''] = [''repo'', ''crates'', ''lp-script'', ''src'']"
    by (simp add: lpscript_dir_def)
  from missing_root_not_detected [OF h, of latin1] show ?thesis
    using h unfolding r by blast
qed

subsection \<open>A file that a pass leaves unchanged\<close>

text \<open>
  C8, as amended.  Take a file whose text as read, that is decoded and with its newlines
  translated, the rules of a pass leave unchanged.  The pass reports the file as unchanged;
  the step that handles it does no more than read the file, so it writes nothing, changes the
  bytes and the modification time of no file, and in Pass 2 and Pass 3 prints nothing; and
  after the whole run of the pass, whatever the other files were, the file has the bytes and
  the modification time it had before, and Pass 2 and Pass 3 have printed no \<^verbatim>\<open>Fixed\<close> for
  it.  The access time is not part of this: the file is read.
\<close>

theorem unchanged_file_keeps_bytes_and_mtime:
  assumes "map_of (files w) p = Some f" and "decode cd (data f) = Some raw"
  shows
    "(process_content (universal_newlines raw) = universal_newlines raw \<longrightarrow>
        fst (process_file cd p w) = Inr False
      \<and> snd (process_file cd p w) = snd (read_file cd p (print (Processing p) w))
      \<and> (\<forall>q. bytes_mtime (snd (process_file cd p w)) q = bytes_mtime w q)
      \<and> bytes_mtime (snd (main cd script_dir w)) p = bytes_mtime w p)
   \<and> (\<not> fst (fix_gen_file (universal_newlines raw)) \<longrightarrow>
        fst (fix_gen_step cd p w) = Inr False
      \<and> snd (fix_gen_step cd p w) = snd (read_file cd p w)
      \<and> (\<forall>q. bytes_mtime (snd (fix_gen_step cd p w)) q = bytes_mtime w q)
      \<and> stdout (snd (fix_gen_step cd p w)) = stdout w
      \<and> bytes_mtime (snd (fix_gen_main cd script_dir w)) p = bytes_mtime w p
      \<and> (Fixed p \<in> set (stdout (snd (fix_gen_main cd script_dir w)))
           \<longrightarrow> Fixed p \<in> set (stdout w)))
   \<and> (\<not> fst (fix_imports (universal_newlines raw)) \<longrightarrow>
        fst (fix_imports_process_file cd p w) = Inr False
      \<and> snd (fix_imports_process_file cd p w) = snd (read_file cd p w)
      \<and> (\<forall>q. bytes_mtime (snd (fix_imports_process_file cd p w)) q = bytes_mtime w q)
      \<and> stdout (snd (fix_imports_process_file cd p w)) = stdout w
      \<and> bytes_mtime (snd (fix_imports_main cd script_dir w)) p = bytes_mtime w p
      \<and> (Fixed p \<in> set (stdout (snd (fix_imports_main cd script_dir w)))
           \<longrightarrow> Fixed p \<in> set (stdout w)))"
proof -
  have bm: "bytes_mtime w p = Some (data f, mtime f)"
    using assms(1) by (simp add: bytes_mtime_def)
  note dec = assms(2)
  have inv: "bytes_mtime w p = Some (data f, mtime f)
      \<and> (Fixed p \<in> set (stdout w) \<longrightarrow> Fixed p \<in> set (stdout w))"
    using bm by simp
  show ?thesis
  proof (intro conjI impI allI)
    assume u: "process_content (universal_newlines raw) = universal_newlines raw"
    show "fst (process_file cd p w) = Inr False"
      by (rule process_file_unchanged(1) [OF dec u bm])
    show "snd (process_file cd p w) = snd (read_file cd p (print (Processing p) w))"
      by (rule process_file_unchanged(3) [OF dec u bm])
    show "bytes_mtime (snd (process_file cd p w)) q = bytes_mtime w q" for q
      by (rule process_file_unchanged(2) [OF dec u bm])
    show "bytes_mtime (snd (main cd script_dir w)) p = bytes_mtime w p"
      using main_keeps [OF dec u bm] bm by simp
  next
    assume u: "\<not> fst (fix_gen_file (universal_newlines raw))"
    show "fst (fix_gen_step cd p w) = Inr False"
      by (rule fix_gen_step_unchanged(1) [OF dec u bm])
    show "snd (fix_gen_step cd p w) = snd (read_file cd p w)"
      by (rule fix_gen_step_unchanged(4) [OF dec u bm])
    show "bytes_mtime (snd (fix_gen_step cd p w)) q = bytes_mtime w q" for q
      by (rule fix_gen_step_unchanged(2) [OF dec u bm])
    show "stdout (snd (fix_gen_step cd p w)) = stdout w"
      by (rule fix_gen_step_unchanged(3) [OF dec u bm])
    show "bytes_mtime (snd (fix_gen_main cd script_dir w)) p = bytes_mtime w p"
      using fix_gen_main_keeps [OF dec u inv] bm by simp
    assume "Fixed p \<in> set (stdout (snd (fix_gen_main cd script_dir w)))"
    then show "Fixed p \<in> set (stdout w)"
      using fix_gen_main_keeps [OF dec u inv] by blast
  next
    assume u: "\<not> fst (fix_imports (universal_newlines raw))"
    show "fst (fix_imports_process_file cd p w) = Inr False"
      by (rule fix_imports_process_file_unchanged(1) [OF dec u bm])
    show "snd (fix_imports_process_file cd p w) = snd (read_file cd p w)"
      by (rule fix_imports_process_file_unchanged(4) [OF dec u bm])
    show "bytes_mtime (snd (fix_imports_process_file cd p w)) q = bytes_mtime w q" for q
      by (rule fix_imports_process_file_unchanged(2) [OF dec u bm])
    show "stdout (snd (fix_imports_process_file cd p w)) = stdout w"
      by (rule fix_imports_process_file_unchanged(3) [OF dec u bm])
    show "bytes_mtime (snd (fix_imports_main cd script_dir w)) p = bytes_mtime w p"
      using fix_imports_main_keeps [OF dec u inv] bm by simp
    assume "Fixed p \<in> set (stdout (snd (fix_imports_main cd script_dir w)))"
    then show "Fixed p \<in> set (stdout w)"
      using fix_imports_main_keeps [OF dec u inv] by blast
  qed
qed

theorem unchanged_file_keeps_bytes_and_mtime_witness:
  "map_of (files tree_with_sources) [''repo'', ''crates'', ''lp-script'', ''src'', ''a.rs''] = Some \<lparr>data = ''fn main() {}'' @ [CHR 0x0D, CHR 0x0A], mtime = 3, atime = 4\<rparr>
   \<and> decode latin1 (data \<lparr>data = ''fn main() {}'' @ [CHR 0x0D, CHR 0x0A], mtime = 3, atime = 4\<rparr>) = Some (''fn main() {}'' @ [CHR 0x0D, CHR 0x0A])
   \<and> process_content (universal_newlines (''fn main() {}'' @ [CHR 0x0D, CHR 0x0A])) = universal_newlines (''fn main() {}'' @ [CHR 0x0D, CHR 0x0A])
   \<and> \<not> fst (fix_gen_file (universal_newlines (''fn main() {}'' @ [CHR 0x0D, CHR 0x0A])))
   \<and> \<not> fst (fix_imports (universal_newlines (''fn main() {}'' @ [CHR 0x0D, CHR 0x0A])))
   \<and> fst (process_file latin1 [''repo'', ''crates'', ''lp-script'', ''src'', ''a.rs''] tree_with_sources) = Inr False
   \<and> bytes_mtime (snd (main latin1 [''repo'', ''scripts''] tree_with_sources)) [''repo'', ''crates'', ''lp-script'', ''src'', ''a.rs''] = Some ((''fn main() {}'' @ [CHR 0x0D, CHR 0x0A]), 3)
   \<and> fst (fix_gen_step latin1 [''repo'', ''crates'', ''lp-script'', ''src'', ''a.rs''] tree_with_sources) = Inr False
   \<and> bytes_mtime (snd (fix_gen_main latin1 [''repo'', ''scripts''] tree_with_sources)) [''repo'', ''crates'', ''lp-script'', ''src'', ''a.rs''] = Some ((''fn main() {}'' @ [CHR 0x0D, CHR 0x0A]), 3)
   \<and> Fixed [''repo'', ''crates'', ''lp-script'', ''src'', ''a.rs''] \<notin> set (stdout (snd (fix_gen_main latin1 [''repo'', ''scripts''] tree_with_sources)))
   \<and> fst (fix_imports_process_file latin1 [''repo'', ''crates'', ''lp-script'', ''src'', ''a.rs''] tree_with_sources) = Inr False
   \<and> bytes_mtime (snd (fix_imports_main latin1 [''repo'', ''scripts''] tree_with_sources)) [''repo'', ''crates'', ''lp-script'', ''src'', ''a.rs''] = Some ((''fn main() {}'' @ [CHR 0x0D, CHR 0x0A]), 3)
   \<and> Fixed [''repo'', ''crates'', ''lp-script'', ''src'', ''a.rs''] \<notin> set (stdout (snd (fix_imports_main latin1 [''repo'', ''scripts''] tree_with_sources)))"
proof -
  let ?p = "[''repo'', ''crates'', ''lp-script'', ''src'', ''a.rs'']"
  let ?f = "\<lparr>data = ''fn main() {}'' @ [CHR 0x0D, CHR 0x0A], mtime = 3, atime = 4\<rparr>"
  let ?raw = "(''fn main() {}'' @ [CHR 0x0D, CHR 0x0A])"
  let ?sd = "[''repo'', ''scripts'']"
  have f: "map_of (files tree_with_sources) ?p = Some ?f"
    by code_simp
  have d: "decode latin1 (data ?f) = Some ?raw"
    by (simp add: latin1_def)
  have u: "process_content (universal_newlines ?raw) = universal_newlines ?raw
      \<and> \<not> fst (fix_gen_file (universal_newlines ?raw))
      \<and> \<not> fst (fix_imports (universal_newlines ?raw))"
    by code_simp
  have b: "bytes_mtime tree_with_sources ?p = Some (?raw, 3)"
    by code_simp
  have o: "stdout tree_with_sources = []"
    by (simp add: tree_with_sources_def)
  from unchanged_file_keeps_bytes_and_mtime [OF f d, of ?sd] show ?thesis
    using f d u unfolding b o by simp
qed

text \<open>
  The claim as stated takes in all the metadata of the file.  Every pass reads the file to
  find out that it has nothing to change, and the read sets the access time: the file of
  the example, last read at time 4, has the access time 7 of the run afterwards.
\<close>

theorem unchanged_file_access_time_changes:
  "process_content (universal_newlines (''fn main() {}'' @ [CHR 0x0D, CHR 0x0A])) = universal_newlines (''fn main() {}'' @ [CHR 0x0D, CHR 0x0A])
   \<and> fst (process_file latin1 [''repo'', ''crates'', ''lp-script'', ''src'', ''a.rs''] tree_with_sources) = Inr False
   \<and> map_option atime (map_of (files tree_with_sources) [''repo'', ''crates'', ''lp-script'', ''src'', ''a.rs'']) = Some 4
   \<and> map_option atime (map_of (files (snd (process_file latin1 [''repo'', ''crates'', ''lp-script'', ''src'', ''a.rs''] tree_with_sources))) [''repo'', ''crates'', ''lp-script'', ''src'', ''a.rs''])
       = Some 7
   \<and> \<not> fst (fix_gen_file (universal_newlines (''fn main() {}'' @ [CHR 0x0D, CHR 0x0A])))
   \<and> map_option atime (map_of (files (snd (fix_gen_step latin1 [''repo'', ''crates'', ''lp-script'', ''src'', ''a.rs''] tree_with_sources))) [''repo'', ''crates'', ''lp-script'', ''src'', ''a.rs''])
       = Some 7
   \<and> \<not> fst (fix_imports (universal_newlines (''fn main() {}'' @ [CHR 0x0D, CHR 0x0A])))
   \<and> map_option atime
         (map_of (files (snd (fix_imports_process_file latin1 [''repo'', ''crates'', ''lp-script'', ''src'', ''a.rs''] tree_with_sources))) [''repo'', ''crates'', ''lp-script'', ''src'', ''a.rs''])
       = Some 7"
  by code_simp

section \<open>The late import-list rules of Pass 1\<close>

text \<open>
  C10, as amended.  For every text in which \<^verbatim>\<open>ExprId\<close> and \<^verbatim>\<open>StmtId\<close> occur only as whole
  identifiers, the whole-word renames of step 1 leave no occurrence of either name, and the
  two late substitutions for \<^verbatim>\<open>, ExprId\<close> and \<^verbatim>\<open>, StmtId\<close> leave the renamed text as it is.
  Pass 1 equals Pass 1 without the two rules whenever the text that reaches them holds
  neither name; the steps in between delete text and can join the pieces of a name.
\<close>

theorem late_id_rules_after_renames:
  "whole_only ''ExprId'' T \<Longrightarrow> whole_only ''StmtId'' T \<Longrightarrow>
     \<not> contains ''ExprId'' (replace_types T)
   \<and> \<not> contains ''StmtId'' (replace_types T)
   \<and> remove_id_imports (replace_types T) = replace_types T
   \<and> (\<not> contains ''ExprId'' (process_content_without_id_rules T)
        \<and> \<not> contains ''StmtId'' (process_content_without_id_rules T)
      \<longrightarrow> process_content T = process_content_without_id_rules T)"
proof -
  assume e: "whole_only ''ExprId'' T" and s: "whole_only ''StmtId'' T"
  let ?E = "re_sub (cat [WordB, Lit ''ExprId'', WordB]) [Txt ''Expr''] T"
  let ?S = "re_sub (cat [WordB, Lit ''StmtId'', WordB]) [Txt ''Stmt''] ?E"
  have np: "\<not> word_opt None" by (simp add: word_opt_def)
  have late: "remove_id_imports c = c" if "\<not> contains ''ExprId'' c" "\<not> contains ''StmtId'' c" for c
    using that by (simp add: remove_id_imports_def contains_sublist comma_rule_never)
  have rt: "replace_types T = ?S" by (simp add: replace_types_def)
  have e1: "\<not> sublist ''ExprId'' ?E"
    unfolding re_sub_def using e
    by (intro word_rule_eliminates names_are_words np) (simp_all add: whole_only_def no_sublist_of_shorter)
  have s1: "whole_at ''StmtId'' None ?E"
    unfolding re_sub_def using s
    by (intro word_rule_keeps_whole names_are_words np) (simp_all add: whole_only_def no_sublist_of_shorter)
  have e2: "\<not> sublist ''ExprId'' ?S"
    unfolding re_sub_def [of _ _ ?E] using e1
    by (intro word_rule_no_new names_are_words np) (simp_all add: no_sublist_of_shorter)
  have s2: "\<not> sublist ''StmtId'' ?S"
    unfolding re_sub_def [of _ _ ?E] using s1
    by (intro word_rule_eliminates names_are_words np) (simp_all add: no_sublist_of_shorter)
  have c: "\<not> contains ''ExprId'' (replace_types T)" "\<not> contains ''StmtId'' (replace_types T)"
    using e2 s2 by (simp_all only: rt contains_sublist simp_thms)
  show ?thesis
    using c late [OF c] late [of "process_content_without_id_rules T"]
    by (simp add: process_content_def process_content_without_id_rules_def)
qed

theorem late_id_rules_after_renames_witness:
  "whole_only ''ExprId'' ''fn f(x: ExprId, y: StmtId) -> ExprId''
   \<and> whole_only ''StmtId'' ''fn f(x: ExprId, y: StmtId) -> ExprId''
   \<and> \<not> contains ''ExprId'' (replace_types ''fn f(x: ExprId, y: StmtId) -> ExprId'')
   \<and> \<not> contains ''StmtId'' (replace_types ''fn f(x: ExprId, y: StmtId) -> ExprId'')
   \<and> remove_id_imports (replace_types ''fn f(x: ExprId, y: StmtId) -> ExprId'')
       = replace_types ''fn f(x: ExprId, y: StmtId) -> ExprId''
   \<and> process_content ''fn f(x: ExprId, y: StmtId) -> ExprId''
       = process_content_without_id_rules ''fn f(x: ExprId, y: StmtId) -> ExprId''"
proof -
  have e: "whole_only ''ExprId'' ''fn f(x: ExprId, y: StmtId) -> ExprId''" by code_simp
  have s: "whole_only ''StmtId'' ''fn f(x: ExprId, y: StmtId) -> ExprId''" by code_simp
  have c: "\<not> contains ''ExprId'' (process_content_without_id_rules ''fn f(x: ExprId, y: StmtId) -> ExprId'')
     \<and> \<not> contains ''StmtId'' (process_content_without_id_rules ''fn f(x: ExprId, y: StmtId) -> ExprId'')"
    by code_simp
  from late_id_rules_after_renames [OF e s] e s c show ?thesis by blast
qed

text \<open>
  The claim as stated fails: the text below holds neither name, step 4 deletes
  \<^verbatim>\<open>, pool: AstPool\<close> and joins \<^verbatim>\<open>Expr\<close> to \<^verbatim>\<open>Id\<close>, and the late rule then deletes
  \<^verbatim>\<open>, ExprId\<close>.
\<close>

theorem late_id_rules_not_redundant:
  "whole_only ''ExprId'' ''g(a, Expr, pool: AstPoolId)''
   \<and> whole_only ''StmtId'' ''g(a, Expr, pool: AstPoolId)''
   \<and> process_content_without_id_rules ''g(a, Expr, pool: AstPoolId)'' = ''g(a, ExprId)''
   \<and> process_content ''g(a, Expr, pool: AstPoolId)'' = ''g(a)''"
  by code_simp

section \<open>The import of LpBox\<close>

text \<open>
  C5, as amended.  Step 8 of Pass 1 inserts \<^verbatim>\<open>use lp_pool::LpBox;\<close> when the rules changed
  the text and the transformed text holds \<^verbatim>\<open>LpBox\<close> but not \<^verbatim>\<open>use lp_pool::LpBox\<close>: directly
  after the first \<^verbatim>\<open>extern crate alloc;\<close> when there is one; otherwise, in a text that does
  not begin with \<^verbatim>\<open>use \<close>, directly before the first line that begins with \<^verbatim>\<open>use \<close>, and
  nowhere when no line begins with \<^verbatim>\<open>use \<close>.  After an insertion the statement occurs
  exactly once.  When the rules left the text unchanged, or it has no \<^verbatim>\<open>LpBox\<close>, or it has
  the import already, step 8 changes nothing.  Steps 1 to 7 keep an occurrence of the
  statement, so a run over a text that holds it inserts no second one.
\<close>

theorem lpbox_import_added_once:
  "(content \<noteq> original \<and> contains ''LpBox'' content \<and> \<not> contains ''use lp_pool::LpBox'' content \<longrightarrow>
      (splits_at_first ''extern crate alloc;'' content a b \<longrightarrow>
         add_lpbox_import original content
           = a @ ''extern crate alloc;'' @ newline @ ''use lp_pool::LpBox;'' @ b)
    \<and> (\<not> contains ''extern crate alloc;'' content \<and> \<not> starts_with ''use '' content
         \<and> splits_at_first (newline @ ''use '') content a b \<longrightarrow>
         add_lpbox_import original content
           = a @ newline @ ''use lp_pool::LpBox;'' @ newline @ ''use '' @ b)
    \<and> (\<not> contains ''extern crate alloc;'' content \<and> \<not> starts_with ''use '' content
         \<and> \<not> contains (newline @ ''use '') content \<longrightarrow>
         add_lpbox_import original content = content)
    \<and> (contains ''extern crate alloc;'' content
         \<or> (\<not> starts_with ''use '' content \<and> contains (newline @ ''use '') content) \<longrightarrow>
         occurrences ''use lp_pool::LpBox;'' (add_lpbox_import original content) = 1))
   \<and> (content = original \<or> \<not> contains ''LpBox'' content \<or> contains ''use lp_pool::LpBox'' content \<longrightarrow>
        add_lpbox_import original content = content)
   \<and> (contains ''use lp_pool::LpBox;'' text \<longrightarrow>
        add_lpbox_import text (rewrite_rules text) = rewrite_rules text)"
proof (intro conjI impI)
  assume g: "content \<noteq> original \<and> contains ''LpBox'' content \<and> \<not> contains ''use lp_pool::LpBox'' content"
  {
    assume "splits_at_first ''extern crate alloc;'' content a b"
    then show "add_lpbox_import original content
           = a @ ''extern crate alloc;'' @ newline @ ''use lp_pool::LpBox;'' @ b"
      using g by (intro add_lpbox_import_after_anchor) simp_all
  next
    assume "\<not> contains ''extern crate alloc;'' content \<and> \<not> starts_with ''use '' content
         \<and> splits_at_first (newline @ ''use '') content a b"
    then show "add_lpbox_import original content
           = a @ newline @ ''use lp_pool::LpBox;'' @ newline @ ''use '' @ b"
      using g by (intro add_lpbox_import_before_use) simp_all
  next
    assume "\<not> contains ''extern crate alloc;'' content \<and> \<not> starts_with ''use '' content
         \<and> \<not> contains (newline @ ''use '') content"
    then show "add_lpbox_import original content = content"
      by (simp add: add_lpbox_import_def)
  next
    assume "contains ''extern crate alloc;'' content
         \<or> (\<not> starts_with ''use '' content \<and> contains (newline @ ''use '') content)"
    then consider "contains ''extern crate alloc;'' content"
      | "\<not> contains ''extern crate alloc;'' content" "contains (newline @ ''use '') content"
      by blast
    then show "occurrences ''use lp_pool::LpBox;'' (add_lpbox_import original content) = 1"
    proof cases
      case 1
      then obtain x y where xy: "content = x @ ''extern crate alloc;'' @ y"
        "\<not> sublist ''extern crate alloc;'' (x @ butlast ''extern crate alloc;'')"
        using first_split_exists [of "''extern crate alloc;''" content]
        by (auto simp: contains_sublist)
      then have sp: "splits_at_first ''extern crate alloc;'' content x y"
        by (simp only: splits_at_first_def contains_sublist simp_thms)
      have "\<not> sublist ''use lp_pool::LpBox'' (x @ ''extern crate alloc;'' @ y)"
        using g xy(1) by (simp only: contains_sublist simp_thms)
      from statement_once_after_anchor [OF this] show ?thesis
        using add_lpbox_import_after_anchor [OF _ _ _ sp, of original] g by simp
    next
      case 2
      then obtain x y where xy: "content = x @ (newline @ ''use '') @ y"
        "\<not> sublist (newline @ ''use '') (x @ butlast (newline @ ''use ''))"
        using first_split_exists [of "newline @ ''use ''" content]
        by (auto simp: contains_sublist)
      then have sp: "splits_at_first (newline @ ''use '') content x y"
        by (simp only: splits_at_first_def contains_sublist simp_thms)
      have "\<not> sublist ''use lp_pool::LpBox'' (x @ newline @ ''use '' @ y)"
        using g xy(1) by (simp only: contains_sublist simp_thms append_assoc)
      from statement_once_before_use [OF this] show ?thesis
        using add_lpbox_import_before_use [OF _ _ _ 2(1) sp, of original] g by simp
    qed
  }
next
  assume "content = original \<or> \<not> contains ''LpBox'' content \<or> contains ''use lp_pool::LpBox'' content"
  then show "add_lpbox_import original content = content"
    by (auto simp: add_lpbox_import_def)
next
  assume "contains ''use lp_pool::LpBox;'' text"
  then have "contains ''use lp_pool::LpBox'' (rewrite_rules text)"
    by (rule rewrite_rules_keep_statement)
  then show "add_lpbox_import text (rewrite_rules text) = rewrite_rules text"
    by (simp add: add_lpbox_import_def)
qed

theorem lpbox_import_added_once_witness:
  "(''extern crate alloc;'' @ newline @ ''fn f(x: LpBox<Expr>) {}'')
     \<noteq> (''extern crate alloc;'' @ newline @ ''fn f(x: Box<Expr>) {}'')
   \<and> contains ''LpBox'' (''extern crate alloc;'' @ newline @ ''fn f(x: LpBox<Expr>) {}'')
   \<and> \<not> contains ''use lp_pool::LpBox''
         (''extern crate alloc;'' @ newline @ ''fn f(x: LpBox<Expr>) {}'')
   \<and> splits_at_first ''extern crate alloc;''
         (''extern crate alloc;'' @ newline @ ''fn f(x: LpBox<Expr>) {}'') []
         (newline @ ''fn f(x: LpBox<Expr>) {}'')
   \<and> add_lpbox_import (''extern crate alloc;'' @ newline @ ''fn f(x: Box<Expr>) {}'')
         (''extern crate alloc;'' @ newline @ ''fn f(x: LpBox<Expr>) {}'')
       = (''extern crate alloc;'' @ newline @ ''use lp_pool::LpBox;'' @ newline
          @ ''fn f(x: LpBox<Expr>) {}'')
   \<and> occurrences ''use lp_pool::LpBox;''
         (add_lpbox_import (''extern crate alloc;'' @ newline @ ''fn f(x: Box<Expr>) {}'')
            (''extern crate alloc;'' @ newline @ ''fn f(x: LpBox<Expr>) {}'')) = 1
   \<and> \<not> contains ''extern crate alloc;''
         (''mod m;'' @ newline @ ''use a::B;'' @ newline @ ''fn f(x: LpBox<Expr>) {}'')
   \<and> \<not> starts_with ''use ''
         (''mod m;'' @ newline @ ''use a::B;'' @ newline @ ''fn f(x: LpBox<Expr>) {}'')
   \<and> splits_at_first (newline @ ''use '')
         (''mod m;'' @ newline @ ''use a::B;'' @ newline @ ''fn f(x: LpBox<Expr>) {}'')
         ''mod m;'' (''a::B;'' @ newline @ ''fn f(x: LpBox<Expr>) {}'')
   \<and> add_lpbox_import (''mod m;'' @ newline @ ''use a::B;'' @ newline @ ''fn f(x: Box<Expr>) {}'')
         (''mod m;'' @ newline @ ''use a::B;'' @ newline @ ''fn f(x: LpBox<Expr>) {}'')
       = (''mod m;'' @ newline @ ''use lp_pool::LpBox;'' @ newline @ ''use a::B;'' @ newline
          @ ''fn f(x: LpBox<Expr>) {}'')
   \<and> add_lpbox_import (''extern crate alloc;'' @ newline @ ''fn f(x: LpBox<Expr>) {}'')
         (''extern crate alloc;'' @ newline @ ''fn f(x: LpBox<Expr>) {}'')
       = (''extern crate alloc;'' @ newline @ ''fn f(x: LpBox<Expr>) {}'')
   \<and> contains ''use lp_pool::LpBox;''
         (''extern crate alloc;'' @ newline @ ''use lp_pool::LpBox;'' @ newline
          @ ''fn f(x: LpBox<Expr>) {}'')
   \<and> add_lpbox_import
         (''extern crate alloc;'' @ newline @ ''use lp_pool::LpBox;'' @ newline
          @ ''fn f(x: LpBox<Expr>) {}'')
         (rewrite_rules
           (''extern crate alloc;'' @ newline @ ''use lp_pool::LpBox;'' @ newline
          @ ''fn f(x: LpBox<Expr>) {}''))
       = rewrite_rules
           (''extern crate alloc;'' @ newline @ ''use lp_pool::LpBox;'' @ newline
          @ ''fn f(x: LpBox<Expr>) {}'')"
proof -
  let ?O1 = "(''extern crate alloc;'' @ newline @ ''fn f(x: Box<Expr>) {}'')"
  let ?C1 = "(''extern crate alloc;'' @ newline @ ''fn f(x: LpBox<Expr>) {}'')"
  let ?B1 = "(newline @ ''fn f(x: LpBox<Expr>) {}'')"
  let ?R1 = "(''extern crate alloc;'' @ newline @ ''use lp_pool::LpBox;'' @ newline
          @ ''fn f(x: LpBox<Expr>) {}'')"
  let ?O2 = "(''mod m;'' @ newline @ ''use a::B;'' @ newline @ ''fn f(x: Box<Expr>) {}'')"
  let ?C2 = "(''mod m;'' @ newline @ ''use a::B;'' @ newline @ ''fn f(x: LpBox<Expr>) {}'')"
  let ?A2 = "''mod m;''"
  let ?B2 = "(''a::B;'' @ newline @ ''fn f(x: LpBox<Expr>) {}'')"
  let ?R2 = "(''mod m;'' @ newline @ ''use lp_pool::LpBox;'' @ newline @ ''use a::B;'' @ newline
          @ ''fn f(x: LpBox<Expr>) {}'')"
  have g1: "?C1 \<noteq> ?O1 \<and> contains ''LpBox'' ?C1 \<and> \<not> contains ''use lp_pool::LpBox'' ?C1"
    by code_simp
  have s1: "splits_at_first ''extern crate alloc;'' ?C1 [] ?B1"
    by code_simp
  have a1: "contains ''extern crate alloc;'' ?C1"
    by code_simp
  have g2: "?C2 \<noteq> ?O2 \<and> contains ''LpBox'' ?C2 \<and> \<not> contains ''use lp_pool::LpBox'' ?C2"
    by code_simp
  have s2: "\<not> contains ''extern crate alloc;'' ?C2 \<and> \<not> starts_with ''use '' ?C2
      \<and> splits_at_first (newline @ ''use '') ?C2 ?A2 ?B2"
    by code_simp
  have t: "contains ''use lp_pool::LpBox;'' ?R1"
    by code_simp
  have n1: "[] @ ''extern crate alloc;'' @ newline @ ''use lp_pool::LpBox;'' @ ?B1 = ?R1"
    by simp
  have n2: "?A2 @ newline @ ''use lp_pool::LpBox;'' @ newline @ ''use '' @ ?B2 = ?R2"
    by simp
  from lpbox_import_added_once [of ?C1 ?O1 "[]" ?B1 ?R1] g1 s1 a1 t
  have r1: "add_lpbox_import ?O1 ?C1
      = [] @ ''extern crate alloc;'' @ newline @ ''use lp_pool::LpBox;'' @ ?B1"
    and o1: "occurrences ''use lp_pool::LpBox;'' (add_lpbox_import ?O1 ?C1) = 1"
    and t1: "add_lpbox_import ?R1 (rewrite_rules ?R1) = rewrite_rules ?R1"
    by blast+
  from lpbox_import_added_once [of ?C2 ?O2 ?A2 ?B2 ?R1] g2 s2
  have r2: "add_lpbox_import ?O2 ?C2
      = ?A2 @ newline @ ''use lp_pool::LpBox;'' @ newline @ ''use '' @ ?B2"
    by blast
  from lpbox_import_added_once [of ?C1 ?C1 "[]" ?B1 ?R1]
  have r3: "add_lpbox_import ?C1 ?C1 = ?C1"
    by blast
  show ?thesis
    using g1 s1 s2 t o1 t1 r3 r1 [unfolded n1] r2 [unfolded n2] by blast
qed

text \<open>
  The claim as stated fails on a text that holds \<^verbatim>\<open>LpBox\<close> and the anchor, lacks the
  import, and that the rules leave unchanged: nothing is inserted.
\<close>

theorem lpbox_import_needs_changed_text:
  "rewrite_rules (''extern crate alloc;'' @ newline @ ''fn f(x: LpBox<u8>) {}'')
     = ''extern crate alloc;'' @ newline @ ''fn f(x: LpBox<u8>) {}''
   \<and> contains ''LpBox'' (''extern crate alloc;'' @ newline @ ''fn f(x: LpBox<u8>) {}'')
   \<and> \<not> contains ''use lp_pool::LpBox'' (''extern crate alloc;'' @ newline @ ''fn f(x: LpBox<u8>) {}'')
   \<and> contains ''extern crate alloc;'' (''extern crate alloc;'' @ newline @ ''fn f(x: LpBox<u8>) {}'')
   \<and> process_content (''extern crate alloc;'' @ newline @ ''fn f(x: LpBox<u8>) {}'')
     = ''extern crate alloc;'' @ newline @ ''fn f(x: LpBox<u8>) {}''"
  by code_simp

text \<open>
  The anchor of the second case is a newline followed by \<^verbatim>\<open>use \<close>.  A \<^verbatim>\<open>use\<close> statement on the
  first line of a text has no newline before it, so step 8 does not find it: the theorem above
  leaves texts that begin with \<^verbatim>\<open>use \<close> aside.
\<close>

lemma first_line_use_is_no_anchor:
  "process_content (''use a;'' @ newline @ ''fn f(x: Box<Expr>) {}'' @ newline)
     = ''use a;'' @ newline @ ''fn f(x: LpBox<Expr>) {}'' @ newline
   \<and> process_content (''use a;'' @ newline @ ''fn f(x: Box<Expr>) {}'' @ newline @ ''use b;'')
     = ''use a;'' @ newline @ ''fn f(x: LpBox<Expr>) {}'' @ newline @ ''use lp_pool::LpBox;''
         @ newline @ ''use b;''"
  by code_simp

end
